theory Spec2Isabelle
  imports Main "HOL-Library.Sublist"
begin

section \<open>JavaScript strings and numbers\<close>

text \<open>
  A JavaScript string is a sequence of UTF-16 code units; \<open>length\<close>, \<open>substring\<close>,
  \<open>split\<close> and regular expressions without the \<open>u\<close> flag all work on code units.
  A code unit is modelled by its number, so the en-dash of the chapter pattern is the
  single unit 8211 and \<open>length\<close> counts what the source counts. \<open>js\<close> writes an ASCII
  literal.
\<close>

type_synonym jsstring = "nat list"

definition js :: "string \<Rightarrow> jsstring" where
  "js s = map of_char s"

text \<open>The character classes of the regular expressions: \<open>\d\<close>, \<open>\s\<close> (white space and
  line terminators, also what \<open>trim\<close> removes) and the line terminators that \<open>.\<close> refuses.\<close>

definition is_digit :: "nat \<Rightarrow> bool" where
  "is_digit c = (48 \<le> c \<and> c \<le> 57)"

definition is_ws :: "nat \<Rightarrow> bool" where
  "is_ws c = (c = 9 \<or> c = 10 \<or> c = 11 \<or> c = 12 \<or> c = 13 \<or> c = 32 \<or> c = 160 \<or> c = 5760
     \<or> (8192 \<le> c \<and> c \<le> 8202) \<or> c = 8232 \<or> c = 8233 \<or> c = 8239 \<or> c = 8287
     \<or> c = 12288 \<or> c = 65279)"

definition is_lt :: "nat \<Rightarrow> bool" where
  "is_lt c = (c = 10 \<or> c = 13 \<or> c = 8232 \<or> c = 8233)"

definition trim :: "jsstring \<Rightarrow> jsstring" where
  "trim s = rev (dropWhile is_ws (rev (dropWhile is_ws s)))"

text \<open>\<open>s.split(sep)\<close> for a one-unit separator; the empty string splits into one empty
  piece.\<close>

fun split_on :: "nat \<Rightarrow> jsstring \<Rightarrow> jsstring list" where
  "split_on sep [] = [[]]"
| "split_on sep (c # cs) =
     (if c = sep then [] # split_on sep cs
      else (case split_on sep cs of [] \<Rightarrow> [[c]] | w # ws \<Rightarrow> (c # w) # ws))"

text \<open>
  A JavaScript number is a double. The model follows the non-negative integers up to
  \<open>Number.MAX_SAFE_INTEGER\<close>, where double arithmetic is exact; every other value
  (\<open>NaN\<close>, a fraction, a negative or larger number) is \<open>Untracked\<close>. Whenever the
  model answers \<open>Num n\<close> the program computes exactly \<open>n\<close>.
\<close>

datatype jsnum = Num nat | Untracked

definition MAX_SAFE_INTEGER :: nat where
  "MAX_SAFE_INTEGER = 9007199254740991"

definition safe :: "nat \<Rightarrow> jsnum" where
  "safe n = (if n \<le> MAX_SAFE_INTEGER then Num n else Untracked)"

fun num_mul :: "jsnum \<Rightarrow> jsnum \<Rightarrow> jsnum" where
  "num_mul (Num a) (Num b) = safe (a * b)"
| "num_mul _ _ = Untracked"

fun num_add :: "jsnum \<Rightarrow> jsnum \<Rightarrow> jsnum" where
  "num_add (Num a) (Num b) = safe (a + b)"
| "num_add _ _ = Untracked"

text \<open>\<open>a <= b\<close> on numbers; a comparison with \<open>NaN\<close> is false, and no order is
  claimed for an untracked value.\<close>

fun num_le :: "jsnum \<Rightarrow> jsnum \<Rightarrow> bool" where
  "num_le (Num a) (Num b) = (a \<le> b)"
| "num_le _ _ = False"

definition dec_value :: "jsstring \<Rightarrow> nat" where
  "dec_value ds = foldl (\<lambda>a c. 10 * a + (c - 48)) 0 ds"

text \<open>\<open>Number(s)\<close>: white space is trimmed, the empty string is 0, a run of decimal
  digits is its value. The other numeric literals (sign, fraction, exponent, radix
  prefix, \<open>Infinity\<close>) and the strings that give \<open>NaN\<close> are untracked.\<close>

definition Number :: "jsstring \<Rightarrow> jsnum" where
  "Number s = (let t = trim s in
     if t = [] then Num 0
     else if list_all is_digit t then safe (dec_value t)
     else Untracked)"

text \<open>\<open>n.toString()\<close> for a non-negative integer below \<open>1e21\<close>: its decimal digits.\<close>

fun to_string :: "nat \<Rightarrow> jsstring" where
  "to_string n = (if n < 10 then [48 + n] else to_string (n div 10) @ [48 + n mod 10])"

declare to_string.simps [simp del]

definition padStart2 :: "jsstring \<Rightarrow> jsstring" where
  "padStart2 s = replicate (2 - length s) 48 @ s"

section \<open>The helpers of App.js\<close>

subsection \<open>getVideoId\<close>

text \<open>
  Each of the three patterns is a literal followed by the group \<open>([^&\n?#]+)\<close>.
  \<open>url.match\<close> returns the leftmost match; the group is greedy and nothing follows it,
  so it takes the longest run of allowed units after the literal.
\<close>

definition id_char :: "nat \<Rightarrow> bool" where
  "id_char c = (c \<noteq> 38 \<and> c \<noteq> 10 \<and> c \<noteq> 63 \<and> c \<noteq> 35)"

fun match_id :: "jsstring \<Rightarrow> jsstring \<Rightarrow> jsstring option" where
  "match_id lit [] = None"
| "match_id lit (c # cs) =
     (let r = takeWhile id_char (drop (length lit) (c # cs)) in
      if prefix lit (c # cs) \<and> r \<noteq> [] then Some r else match_id lit cs)"

definition patterns :: "jsstring list" where
  "patterns = [js ''youtube.com/watch?v='', js ''youtu.be/'', js ''youtube.com/embed/'']"

fun first_match :: "jsstring list \<Rightarrow> jsstring \<Rightarrow> jsstring option" where
  "first_match [] url = None"
| "first_match (p # ps) url =
     (case match_id p url of Some v \<Rightarrow> Some v | None \<Rightarrow> first_match ps url)"

definition getVideoId :: "jsstring \<Rightarrow> jsstring option" where
  "getVideoId url = first_match patterns url"

subsection \<open>parseTimeToSeconds and formatTime\<close>

definition parseTimeToSeconds :: "jsstring \<Rightarrow> jsnum" where
  "parseTimeToSeconds timeStr =
     (case map Number (split_on 58 timeStr) of
        [h, m, s] \<Rightarrow> num_add (num_add (num_mul h (Num 3600)) (num_mul m (Num 60))) s
      | [m, s] \<Rightarrow> num_add (num_mul m (Num 60)) s
      | _ \<Rightarrow> Num 0)"

definition formatTime :: "nat \<Rightarrow> jsstring" where
  "formatTime seconds =
     (let hours = seconds div 3600;
          minutes = (seconds mod 3600) div 60;
          secs = seconds mod 60
      in to_string hours @ [58] @ padStart2 (to_string minutes) @ [58] @ padStart2 (to_string secs))"

text \<open>\<open>jumpToTime\<close>, when the player exists, rewrites its address: everything before
  the first \<open>?\<close>, then the start time. The argument is a tracked number of seconds.\<close>

definition jumpToTime :: "nat \<Rightarrow> jsstring \<Rightarrow> jsstring" where
  "jumpToTime seconds src =
     (let baseUrl = hd (split_on 63 src)
      in baseUrl @ js ''?start='' @ to_string seconds @ js ''&autoplay=1'')"

section \<open>Chapters\<close>

record video_chapter =
  time :: jsstring
  title :: jsstring
  seconds :: jsnum

subsection \<open>The structural builder: createTimestampsFromTranscript\<close>

text \<open>
  A transcript segment as the builder reads it. A field is \<open>None\<close> when the object
  lacks it; a missing or empty string is falsy in \<open>segment?.text && segment?.start_formatted\<close>.
  The fields are strings, so nothing throws while a segment is read.
\<close>

record segment =
  seg_text :: "jsstring option"
  start_formatted :: "jsstring option"
  end_formatted :: "jsstring option"

definition truthy :: "jsstring option \<Rightarrow> bool" where
  "truthy f = (case f of None \<Rightarrow> False | Some s \<Rightarrow> s \<noteq> [])"

text \<open>
  The patterns with the \<open>i\<close> flag hold ASCII letters and a space only. Without the
  \<open>u\<close> flag a unit above 127 is never folded onto an ASCII letter, so folding the
  ASCII capitals is the whole comparison. The same holds for \<open>toLowerCase\<close> against
  the stop words: a unit above 127 lowers to units above 127, but for the Kelvin sign
  (to \<open>k\<close>) and the dotted capital I (to \<open>i\<close> and a combining dot), and no stop word
  holds a \<open>k\<close> or a combining dot.
\<close>

definition lower :: "nat \<Rightarrow> nat" where
  "lower c = (if 65 \<le> c \<and> c \<le> 90 then c + 32 else c)"

definition toLowerCase :: "jsstring \<Rightarrow> jsstring" where
  "toLowerCase w = map lower w"

text \<open>An alternation anchored at the start with nothing after it: the first alternative
  that is a prefix (letters compared without case) is the match; the result is what
  follows it.\<close>

fun after_alternative :: "jsstring list \<Rightarrow> jsstring \<Rightarrow> jsstring option" where
  "after_alternative [] s = None"
| "after_alternative (a # as) s =
     (if prefix a (toLowerCase (take (length a) s)) then Some (drop (length a) s)
      else after_alternative as s)"

definition lead_ins :: "jsstring list" where
  "lead_ins = [js ''welcome to'', js ''hello'', js ''hi there'', js ''today we'', js ''in this'']"

definition strip_lead_in :: "jsstring \<Rightarrow> jsstring" where
  "strip_lead_in s = (case after_alternative lead_ins s of None \<Rightarrow> s | Some r \<Rightarrow> r)"

text \<open>\<open>/^(fact|number|tip)( \d+)?:?/i\<close>: after the keyword an optional space with
  digits (all of them), then an optional colon.\<close>

definition strip_numbering :: "jsstring \<Rightarrow> jsstring" where
  "strip_numbering s =
     (case after_alternative [js ''fact'', js ''number'', js ''tip''] s of
        None \<Rightarrow> s
      | Some r \<Rightarrow>
          (let r1 = (case r of
                       sp # d # r' \<Rightarrow>
                         if sp = 32 \<and> is_digit d then dropWhile is_digit r' else r
                     | _ \<Rightarrow> r)
           in case r1 of c # r2 \<Rightarrow> if c = 58 then r2 else r1 | [] \<Rightarrow> r1))"

definition stop_words :: "jsstring list" where
  "stop_words = [js ''the'', js ''and'', js ''but'', js ''for'', js ''are'', js ''will'',
     js ''can'', js ''you'', js ''your'']"

definition significant :: "jsstring \<Rightarrow> bool" where
  "significant word = (length word > 2 \<and> toLowerCase word \<notin> set stop_words)"

fun join_sp :: "jsstring list \<Rightarrow> jsstring" where
  "join_sp [] = []"
| "join_sp [w] = w"
| "join_sp (w # ws) = w @ 32 # join_sp ws"

definition chapterTitle :: "jsstring \<Rightarrow> jsstring" where
  "chapterTitle txt =
     (let title = strip_numbering (strip_lead_in (trim txt));
          words = filter significant (split_on 32 title)
      in join_sp (take 3 words))"

text \<open>The body of the loop for one visited segment: the chapter it pushes, if any.\<close>

definition bucket :: "segment \<Rightarrow> video_chapter list" where
  "bucket seg =
     (if truthy (seg_text seg) \<and> truthy (start_formatted seg) then
        (let t = chapterTitle (the (seg_text seg)) in
         if length t > 3 then
           [\<lparr>time = the (start_formatted seg),
             title = (if length t > 30 then take 27 t @ js ''...'' else t),
             seconds = parseTimeToSeconds (the (start_formatted seg))\<rparr>]
         else [])
      else [])"

function chapter_loop :: "segment list \<Rightarrow> nat \<Rightarrow> video_chapter list \<Rightarrow> video_chapter list" where
  "chapter_loop structuredData i chapters =
     (if i < length structuredData then
        chapter_loop structuredData
          (i + max 50 (length structuredData div 15))
          (chapters @ bucket (structuredData ! i))
      else chapters)"
  by pat_completeness auto
termination
  by (relation "measure (\<lambda>(d, i, c). length d - i)") auto

declare chapter_loop.simps [simp del]

definition conclusion :: "segment list \<Rightarrow> video_chapter list" where
  "conclusion structuredData =
     (if length structuredData > 0 then
        (let lastSegment = structuredData ! (length structuredData - 1) in
         if truthy (end_formatted lastSegment) then
           [\<lparr>time = the (end_formatted lastSegment), title = js ''Conclusion'',
             seconds = parseTimeToSeconds (the (end_formatted lastSegment))\<rparr>]
         else [])
      else [])"

text \<open>The list that \<open>createTimestampsFromTranscript\<close> hands to \<open>setTimestamps\<close>.\<close>

definition structural_chapters :: "segment list \<Rightarrow> video_chapter list" where
  "structural_chapters structuredData = chapter_loop structuredData 0 [] @ conclusion structuredData"

subsection \<open>The generative builder: the parser of generateAITimestamps\<close>

text \<open>
  \<open>\d{1,2}:\d{2}:\d{2}\<close> at the start of a string: the three digit groups and the rest.
  The two ways to read the hours exclude each other (the second unit is a digit or a
  colon), so no backtracking is lost.
\<close>

definition time_at :: "jsstring \<Rightarrow> (jsstring \<times> jsstring \<times> jsstring \<times> jsstring) option" where
  "time_at s =
     (case s of
        a # b # r \<Rightarrow>
          (let hr = (if is_digit a \<and> is_digit b then Some ([a, b], r)
                     else if is_digit a then Some ([a], b # r) else None)
           in case hr of
                None \<Rightarrow> None
              | Some (h, r1) \<Rightarrow>
                  (case r1 of
                     c1 # m1 # m2 # c2 # s1 # s2 # r2 \<Rightarrow>
                       if c1 = 58 \<and> is_digit m1 \<and> is_digit m2 \<and> c2 = 58
                          \<and> is_digit s1 \<and> is_digit s2
                       then Some (h, [m1, m2], [s1, s2], r2) else None
                   | _ \<Rightarrow> None))
      | _ \<Rightarrow> None)"

text \<open>
  \<open>\s*(.+)\<close> at the end of the pattern. The white space is taken greedily; when
  nothing is left for the group, the white space gives units back until the group can
  start, and the group cannot hold a line terminator. What is left after all the white
  space starts with a unit that is no white space, hence no line terminator.
\<close>

definition title_group :: "jsstring \<Rightarrow> jsstring option" where
  "title_group r =
     (let rest = dropWhile is_ws r in
      if rest \<noteq> [] then Some (takeWhile (\<lambda>c. \<not> is_lt c) rest)
      else (case dropWhile is_lt (rev (takeWhile is_ws r)) of
              [] \<Rightarrow> None
            | c # _ \<Rightarrow> Some [c]))"

text \<open>\<open>/(\d{1,2}):(\d{2}):(\d{2})\s*[-\u2013]\s*(.+)/\<close> tried at the start of a string; the
  separator is the hyphen (45) or the en-dash (8211).\<close>

definition chapter_at :: "jsstring \<Rightarrow> (jsstring \<times> jsstring \<times> jsstring \<times> jsstring) option" where
  "chapter_at s =
     (case time_at s of
        None \<Rightarrow> None
      | Some (h, m, sec, r) \<Rightarrow>
          (case dropWhile is_ws r of
             [] \<Rightarrow> None
           | d # r2 \<Rightarrow>
               if d = 45 \<or> d = 8211 then
                 (case title_group r2 of None \<Rightarrow> None | Some t \<Rightarrow> Some (h, m, sec, t))
               else None))"

text \<open>\<open>line.match\<close>: the leftmost position where the pattern matches.\<close>

fun line_match :: "jsstring \<Rightarrow> (jsstring \<times> jsstring \<times> jsstring \<times> jsstring) option" where
  "line_match [] = None"
| "line_match (c # cs) =
     (case chapter_at (c # cs) of Some g \<Rightarrow> Some g | None \<Rightarrow> line_match cs)"

text \<open>\<open>replace(/\*\*/g, '')\<close>.\<close>

fun remove_bold :: "jsstring \<Rightarrow> jsstring" where
  "remove_bold (a # b # r) = (if a = 42 \<and> b = 42 then remove_bold r else a # remove_bold (b # r))"
| "remove_bold r = r"

text \<open>One line of the answer: the chapter it pushes, if any. The hours, minutes and
  seconds have at most two digits, so the sum is far below the safe bound.\<close>

definition line_chapter :: "jsstring \<Rightarrow> video_chapter list" where
  "line_chapter line =
     (case line_match line of
        None \<Rightarrow> []
      | Some (g1, g2, g3, g4) \<Rightarrow>
          (let hours = dec_value g1; minutes = dec_value g2; secs = dec_value g3;
               t = remove_bold (trim g4);
               displayTime = to_string hours @ [58] @ padStart2 (to_string minutes)
                             @ [58] @ padStart2 (to_string secs)
           in [\<lparr>time = displayTime,
                title = (if length t > 40 then take 37 t @ js ''...'' else t),
                seconds = Num (hours * 3600 + minutes * 60 + secs)\<rparr>]))"

text \<open>The list that \<open>generateAITimestamps\<close> hands to \<open>setTimestamps\<close> for an answer.\<close>

definition generative_chapters :: "jsstring \<Rightarrow> video_chapter list" where
  "generative_chapters answer = concat (map line_chapter (split_on 10 answer))"

section \<open>Rendering an answer: formatText\<close>

text \<open>
  \<open>text.replace(re, out)\<close> with the \<open>g\<close> flag, for a pattern that never matches the
  empty string: the matcher is tried at each position from the left; where it matches,
  the replacement is written and the scan resumes after the matched units (the counter
  skips them), otherwise the unit is copied.
\<close>

fun gsub :: "(jsstring \<Rightarrow> (jsstring \<times> nat) option) \<Rightarrow> nat \<Rightarrow> jsstring \<Rightarrow> jsstring" where
  "gsub m skip [] = []"
| "gsub m skip (c # cs) =
     (if skip > 0 then gsub m (skip - 1) cs
      else (case m (c # cs) of
              Some (out, n) \<Rightarrow> out @ gsub m (n - 1) cs
            | None \<Rightarrow> c # gsub m 0 cs))"

definition strong_open :: jsstring where
  "strong_open = js ''<strong class='' @ [34] @ js ''bold-text'' @ [34] @ js ''>''"

definition strong_close :: jsstring where
  "strong_close = js ''</strong>''"

definition em_open :: jsstring where
  "em_open = js ''<em class='' @ [34] @ js ''italic-text'' @ [34] @ js ''>''"

definition em_close :: jsstring where
  "em_close = js ''</em>''"

definition span_open :: jsstring where
  "span_open = js ''<span class='' @ [34] @ js ''timestamp-placeholder'' @ [34] @ js ''>''"

definition span_close :: jsstring where
  "span_close = js ''</span>''"

text \<open>\<open>/\*\*([^*]+)\*\*/\<close> and \<open>/\*([^*]+)\*/\<close> at the start of a string: the
  replacement and the number of units matched. The group takes every unit up to the
  next star, and a shorter group would have to be followed by a star it does not have.\<close>

definition bold_at :: "jsstring \<Rightarrow> (jsstring \<times> nat) option" where
  "bold_at s =
     (case s of
        a # b # r \<Rightarrow>
          (let inner = takeWhile (\<lambda>c. c \<noteq> 42) r; rest = dropWhile (\<lambda>c. c \<noteq> 42) r in
           if a = 42 \<and> b = 42 \<and> inner \<noteq> [] \<and> prefix [42, 42] rest
           then Some (strong_open @ inner @ strong_close, length inner + 4) else None)
      | _ \<Rightarrow> None)"

definition italic_at :: "jsstring \<Rightarrow> (jsstring \<times> nat) option" where
  "italic_at s =
     (case s of
        a # r \<Rightarrow>
          (let inner = takeWhile (\<lambda>c. c \<noteq> 42) r; rest = dropWhile (\<lambda>c. c \<noteq> 42) r in
           if a = 42 \<and> inner \<noteq> [] \<and> prefix [42] rest
           then Some (em_open @ inner @ em_close, length inner + 2) else None)
      | _ \<Rightarrow> None)"

text \<open>\<open>/\((\d{1,2}):(\d{2}):(\d{2})\)/\<close> at the start of a string.\<close>

definition citation_at :: "jsstring \<Rightarrow> (jsstring \<times> nat) option" where
  "citation_at s =
     (case s of
        [] \<Rightarrow> None
      | c # r \<Rightarrow>
          if c = 40 then
            (case time_at r of
               None \<Rightarrow> None
             | Some (h, m, sec, r') \<Rightarrow>
                 (case r' of
                    [] \<Rightarrow> None
                  | d # _ \<Rightarrow>
                      if d = 41
                      then Some (span_open @ h @ [58] @ m @ [58] @ sec @ span_close, length h + 8)
                      else None))
          else None)"

text \<open>The separator of the \<open>split\<close>, a placeholder span around a time, at the start of
  a string: the captured time and the number of units matched.\<close>

definition placeholder_at :: "jsstring \<Rightarrow> (jsstring \<times> nat) option" where
  "placeholder_at s =
     (if prefix span_open s then
        (case time_at (drop (length span_open) s) of
           None \<Rightarrow> None
         | Some (h, m, sec, r') \<Rightarrow>
             if prefix span_close r'
             then Some (h @ [58] @ m @ [58] @ sec,
                        length span_open + length h + 6 + length span_close)
             else None)
      else None)"

text \<open>\<open>split\<close> with a capturing separator: the pieces between the matches alternate with
  the captured times, so the odd positions of the result are the captures.\<close>

fun split_placeholder :: "nat \<Rightarrow> jsstring \<Rightarrow> jsstring \<Rightarrow> jsstring list" where
  "split_placeholder skip cur [] = [cur]"
| "split_placeholder skip cur (c # cs) =
     (if skip > 0 then split_placeholder (skip - 1) cur cs
      else (case placeholder_at (c # cs) of
              Some (cap, n) \<Rightarrow> cur # cap # split_placeholder (n - 1) [] cs
            | None \<Rightarrow> split_placeholder 0 (cur @ [c]) cs))"

text \<open>What \<open>formatText\<close> renders: a span of markup, or a button with its label and the
  time that its click passes to \<open>jumpToTime\<close>.\<close>

datatype node = Span jsstring | Button jsstring jsnum

fun render :: "jsstring list \<Rightarrow> node list" where
  "render [] = []"
| "render [p] = (if p \<noteq> [] then [Span p] else [])"
| "render (p # t # rest) =
     (if p \<noteq> [] then [Span p] else []) @ Button t (parseTimeToSeconds t) # render rest"

datatype rendered = Elements "node list" | Plain jsstring

definition formatText :: "jsstring \<Rightarrow> rendered" where
  "formatText txt =
     (let formattedText = gsub citation_at 0 (gsub italic_at 0 (gsub bold_at 0 txt));
          parts = split_placeholder 0 [] formattedText;
          result = render parts
      in if length result > 0 then Elements result else Plain txt)"

section \<open>Loading a video\<close>

text \<open>
  The component state that \<open>loadVideo\<close> and the chapter builders read and set. The
  notification toasts (identified by the clock, removed by timers) and the wall-clock time
  of a message are presentation and are left out. What the code does besides setting
  state is recorded as a trace of events: the requests it sends and the chapter builders
  it invokes.
\<close>

datatype message = SystemMsg jsstring | UserMsg jsstring | AiMsg jsstring jsstring

record app_state =
  videoUrl :: jsstring
  messages :: "message list"
  videoId :: jsstring
  videoTitle :: jsstring
  timestamps :: "video_chapter list"
  error :: jsstring

datatype builder = CreateTimestampsFromTranscript | GenerateAITimestamps

datatype event = Fetch jsstring jsstring | Invoke builder

text \<open>A request either fails (\<open>fetch\<close> or \<open>response.json()\<close> throws) or is answered with
  data. A field of the data is \<open>None\<close> when the object lacks it.\<close>

datatype 'a reply = Rejected | Replied 'a

record process_data =
  py_success :: bool
  py_video_title :: "jsstring option"
  py_error :: "jsstring option"

record smart_data =
  sq_success :: bool
  sq_video_title :: "jsstring option"
  sq_answer :: "jsstring option"

text \<open>
  \<open>generateAITimestamps\<close> is a closure of the render in which it was created: the
  \<open>videoTitle\<close> it tests is the one of that render (\<open>cap\<close>), not the state being built.
  A missing \<open>answer\<close> throws at \<open>split\<close>, after the title was set, and the \<open>catch\<close>
  leaves the chapters alone.
\<close>

definition generateAITimestamps ::
  "app_state \<Rightarrow> jsstring \<Rightarrow> smart_data reply \<Rightarrow> app_state \<Rightarrow> app_state \<times> event list" where
  "generateAITimestamps cap url r st =
     (let evs = [Invoke GenerateAITimestamps, Fetch (js ''/smart-question'') url] in
      case r of
        Rejected \<Rightarrow> (st, evs)
      | Replied data \<Rightarrow>
          if sq_success data then
            (let st1 = (if truthy (sq_video_title data) \<and> videoTitle cap = []
                        then st\<lparr>videoTitle := the (sq_video_title data)\<rparr> else st)
             in case sq_answer data of
                  None \<Rightarrow> (st1, evs)
                | Some answer \<Rightarrow> (st1\<lparr>timestamps := generative_chapters answer\<rparr>, evs))
          else (st, evs))"

text \<open>
  \<open>createTimestampsFromTranscript\<close> sets the chapters it builds. Its \<open>catch\<close> branch is
  reached when reading the transcript throws, which for the reads in the \<open>try\<close> block
  means that the argument is \<open>null\<close> or \<open>undefined\<close> (\<open>None\<close>); it then hands over to the
  generative builder with the URL of its render.
\<close>

definition createTimestampsFromTranscript ::
  "app_state \<Rightarrow> smart_data reply \<Rightarrow> segment list option \<Rightarrow> app_state
     \<Rightarrow> app_state \<times> event list" where
  "createTimestampsFromTranscript cap r structuredData st =
     (case structuredData of
        Some d \<Rightarrow>
          (st\<lparr>timestamps := structural_chapters d\<rparr>, [Invoke CreateTimestampsFromTranscript])
      | None \<Rightarrow>
          (let (st1, evs) = generateAITimestamps cap (videoUrl cap) r st
           in (st1, Invoke CreateTimestampsFromTranscript # evs)))"

definition loadVideo ::
  "process_data reply \<Rightarrow> smart_data reply \<Rightarrow> app_state \<Rightarrow> app_state \<times> event list" where
  "loadVideo r1 r2 st =
     (case getVideoId (videoUrl st) of
        None \<Rightarrow> (st\<lparr>error := js ''Please enter a valid YouTube URL''\<rparr>, [])
      | Some ident \<Rightarrow>
          if ident = [] then (st\<lparr>error := js ''Please enter a valid YouTube URL''\<rparr>, [])
          else
            (let st1 = st\<lparr>videoId := ident, messages := [], timestamps := [], error := []\<rparr>;
                 sent = Fetch (js ''/process-youtube'') (videoUrl st)
             in case r1 of
                  Rejected \<Rightarrow> (st1\<lparr>error := js ''Failed to connect to server''\<rparr>, [sent])
                | Replied data \<Rightarrow>
                    if \<not> py_success data then
                      (st1\<lparr>error := js ''Could not extract transcript from this video''\<rparr>, [sent])
                    else
                      (let named = truthy (py_video_title data);
                           st2 = st1\<lparr>videoTitle :=
                                       (if named then the (py_video_title data)
                                        else js ''Unknown Video''),
                                     messages :=
                                       [SystemMsg (js ''Video loaded! Ask questions about '' @ [34]
                                          @ (if named then the (py_video_title data)
                                             else js ''this video'') @ [34] @ js ''.'')]\<rparr>;
                           (st3, evs) = generateAITimestamps st (videoUrl st) r2 st2
                       in (st3, sent # evs))))"

section \<open>Notions of the specification\<close>

text \<open>
  The specification speaks of a segment's start and end time and of a walk over the
  segments at a stride. The times are read with the program's own parser from the
  formatted fields, the only time fields the program reads; the walk is the list of
  positions below \<open>n\<close> that are multiples of the stride \<open>max(50, floor(n/15))\<close>.
\<close>

definition seg_start :: "segment \<Rightarrow> jsnum" where
  "seg_start seg = (case start_formatted seg of None \<Rightarrow> Untracked | Some t \<Rightarrow> parseTimeToSeconds t)"

definition seg_end :: "segment \<Rightarrow> jsnum" where
  "seg_end seg = (case end_formatted seg of None \<Rightarrow> Untracked | Some t \<Rightarrow> parseTimeToSeconds t)"

definition visited :: "nat \<Rightarrow> nat list" where
  "visited n = filter (\<lambda>j. max 50 (n div 15) dvd j) [0..<n]"

text \<open>
  A line matches the chapter pattern \<open>H:MM:SS - Title\<close> when the pattern occurs in it:
  one or two digits, a colon, two digits, a colon, two digits, optional white space, a
  hyphen or an en-dash, optional white space, and a title of at least one unit without
  a line terminator. \<open>String.match\<close> searches, so text may stand before and after.
\<close>

definition chapter_pattern :: "jsstring \<Rightarrow> bool" where
  "chapter_pattern line =
     (\<exists>pre h m s w1 d w2 t post.
        line = pre @ h @ [58] @ m @ [58] @ s @ w1 @ [d] @ w2 @ t @ post
        \<and> (length h = 1 \<or> length h = 2) \<and> list_all is_digit h
        \<and> length m = 2 \<and> list_all is_digit m
        \<and> length s = 2 \<and> list_all is_digit s
        \<and> list_all is_ws w1 \<and> (d = 45 \<or> d = 8211) \<and> list_all is_ws w2
        \<and> t \<noteq> [] \<and> list_all (\<lambda>c. \<not> is_lt c) t)"

text \<open>
  Which chapter an accepted line gives is fixed by where the pattern is found.
  \<open>pattern_at s h m sec r\<close>: \<open>s\<close> starts with the pattern, with the digit groups
  \<open>h\<close>, \<open>m\<close>, \<open>sec\<close>, and \<open>r\<close> is all that follows the separator; a title can be
  read from \<open>r\<close> when it holds a unit that is no line terminator.
  \<open>leftmost_match line pre h m sec r\<close>: the pattern is found in \<open>line\<close> after \<open>pre\<close>, and
  at no earlier position.
\<close>

definition pattern_at :: "jsstring \<Rightarrow> jsstring \<Rightarrow> jsstring \<Rightarrow> jsstring \<Rightarrow> jsstring \<Rightarrow> bool" where
  "pattern_at s h m sec r =
     (\<exists>w1 d. s = h @ [58] @ m @ [58] @ sec @ w1 @ [d] @ r
        \<and> (length h = 1 \<or> length h = 2) \<and> list_all is_digit h
        \<and> length m = 2 \<and> list_all is_digit m
        \<and> length sec = 2 \<and> list_all is_digit sec
        \<and> list_all is_ws w1 \<and> (d = 45 \<or> d = 8211)
        \<and> \<not> list_all is_lt r)"

definition leftmost_match ::
  "jsstring \<Rightarrow> jsstring \<Rightarrow> jsstring \<Rightarrow> jsstring \<Rightarrow> jsstring \<Rightarrow> jsstring \<Rightarrow> bool" where
  "leftmost_match line pre h m sec r =
     (\<exists>s. line = pre @ s \<and> pattern_at s h m sec r
        \<and> (\<forall>k<length pre. \<not> (\<exists>h' m' sec' r'. pattern_at (drop k line) h' m' sec' r')))"

section \<open>Time strings\<close>

subsection \<open>Digits and numbers\<close>

lemma digit_not_ws: "is_digit c \<Longrightarrow> \<not> is_ws c"
  by (auto simp: is_digit_def is_ws_def)

lemma digit_not_colon: "is_digit c \<Longrightarrow> c \<noteq> 58"
  by (auto simp: is_digit_def)

lemma digits_no_colon: "list_all is_digit s \<Longrightarrow> 58 \<notin> set s"
  by (auto simp: list_all_iff dest: digit_not_colon)

lemma trim_digits: "list_all is_digit s \<Longrightarrow> trim s = s"
proof -
  assume a: "list_all is_digit s"
  have d: "\<And>xs. list_all is_digit xs \<Longrightarrow> dropWhile is_ws xs = xs"
    by (case_tac xs) (auto simp: digit_not_ws)
  from a have "list_all is_digit (rev s)" by (simp add: list_all_iff)
  with a d show ?thesis by (simp add: trim_def)
qed

lemma dec_value_snoc: "dec_value (xs @ [c]) = 10 * dec_value xs + (c - 48)"
  by (simp add: dec_value_def)

lemma to_string_digits: "list_all is_digit (to_string n) \<and> to_string n \<noteq> []"
proof (induction n rule: to_string.induct)
  case (1 n)
  show ?case
  proof (cases "n < 10")
    case True
    then show ?thesis by (simp add: to_string.simps [of n] is_digit_def)
  next
    case False
    have "n mod 10 < 10" by simp
    then have "is_digit (48 + n mod 10)" unfolding is_digit_def by linarith
    with False 1 show ?thesis by (simp add: to_string.simps [of n])
  qed
qed

lemma dec_value_to_string: "dec_value (to_string n) = n"
proof (induction n rule: to_string.induct)
  case (1 n)
  show ?case
  proof (cases "n < 10")
    case True
    then show ?thesis by (simp add: to_string.simps [of n] dec_value_def)
  next
    case False
    with 1 show ?thesis by (simp add: to_string.simps [of n] dec_value_snoc)
  qed
qed

lemma to_string_no_leading_zero: "hd (to_string n) = 48 \<Longrightarrow> to_string n = [48]"
proof (induction n rule: to_string.induct)
  case (1 n)
  show ?case
  proof (cases "n < 10")
    case True
    with 1(2) show ?thesis by (simp add: to_string.simps [of n] to_string.simps [of 0])
  next
    case False
    have ne: "to_string (n div 10) \<noteq> []" using to_string_digits by blast
    with False 1(2) have "hd (to_string (n div 10)) = 48"
      by (simp add: to_string.simps [of n])
    with 1(1) False have "to_string (n div 10) = [48]" by simp
    then have "dec_value (to_string (n div 10)) = 0" by (simp add: dec_value_def)
    then have "n div 10 = 0" by (simp add: dec_value_to_string)
    with False show ?thesis by simp
  qed
qed

lemma to_string_length: "n < 100 \<Longrightarrow> length (to_string n) \<le> 2"
  by (simp add: to_string.simps [of n] to_string.simps [of "n div 10"])

lemma Number_digits:
  "list_all is_digit ds \<Longrightarrow> ds \<noteq> [] \<Longrightarrow> Number ds = safe (dec_value ds)"
  by (simp add: Number_def trim_digits)

lemma dec_value_zeros: "dec_value (replicate k 48 @ s) = dec_value s"
proof -
  have "foldl (\<lambda>a c. 10 * a + (c - 48)) 0 (replicate k 48) = (0::nat)"
    by (induction k) simp_all
  then show ?thesis by (simp add: dec_value_def)
qed

lemma padStart2_digits: "list_all is_digit s \<Longrightarrow> list_all is_digit (padStart2 s)"
  by (auto simp: padStart2_def list_all_iff is_digit_def)

lemma padStart2_value: "dec_value (padStart2 s) = dec_value s"
  by (simp add: padStart2_def dec_value_zeros)

lemma padStart2_length: "s \<noteq> [] \<Longrightarrow> length s \<le> 2 \<Longrightarrow> length (padStart2 s) = 2"
  by (cases s) (auto simp: padStart2_def)

lemma split_on_none: "sep \<notin> set s \<Longrightarrow> split_on sep s = [s]"
  by (induction s) auto

lemma split_on_first: "sep \<notin> set a \<Longrightarrow> split_on sep (a @ sep # b) = a # split_on sep b"
  by (induction a) auto

lemma hms_sum: "(s::nat) div 3600 * 3600 + s mod 3600 div 60 * 60 + s mod 60 = s"
proof -
  have "s mod 3600 mod 60 = s mod 60"
    by (rule mod_mod_cancel) simp
  then have "s mod 3600 div 60 * 60 + s mod 60 = s mod 3600"
    by (metis div_mult_mod_eq)
  then show ?thesis
    by (metis add.assoc div_mult_mod_eq)
qed

lemma safe_le: "n \<le> m \<Longrightarrow> m \<le> MAX_SAFE_INTEGER \<Longrightarrow> safe n = Num n"
  by (simp add: safe_def)

lemma parse_hms:
  assumes h: "list_all is_digit h" "h \<noteq> []"
    and m: "list_all is_digit m" "m \<noteq> []"
    and t: "list_all is_digit t" "t \<noteq> []"
    and b: "dec_value h * 3600 + dec_value m * 60 + dec_value t \<le> MAX_SAFE_INTEGER"
  shows "parseTimeToSeconds (h @ 58 # m @ 58 # t)
       = Num (dec_value h * 3600 + dec_value m * 60 + dec_value t)"
proof -
  have sp: "split_on 58 (h @ 58 # m @ 58 # t) = [h, m, t]"
    using h m t by (simp add: split_on_first split_on_none digits_no_colon)
  have s1: "safe (dec_value h) = Num (dec_value h)"
    by (rule safe_le [OF _ b]) simp
  have s2: "safe (dec_value m) = Num (dec_value m)"
    by (rule safe_le [OF _ b]) simp
  have s3: "safe (dec_value t) = Num (dec_value t)"
    by (rule safe_le [OF _ b]) simp
  have s4: "safe (dec_value h * 3600) = Num (dec_value h * 3600)"
    by (rule safe_le [OF _ b]) simp
  have s5: "safe (dec_value m * 60) = Num (dec_value m * 60)"
    by (rule safe_le [OF _ b]) simp
  have s6: "safe (dec_value h * 3600 + dec_value m * 60)
      = Num (dec_value h * 3600 + dec_value m * 60)"
    by (rule safe_le [OF _ b]) simp
  have s7: "safe (dec_value h * 3600 + dec_value m * 60 + dec_value t)
      = Num (dec_value h * 3600 + dec_value m * 60 + dec_value t)"
    by (rule safe_le [OF _ b]) simp
  show ?thesis
    using h m t
    by (simp add: parseTimeToSeconds_def sp Number_digits s1 s2 s3 s4 s5 s6 s7)
qed

subsection \<open>Rendering and parsing a time\<close>

text \<open>
  Claim C9. For every non-negative integer \<open>s\<close> that a JavaScript number holds exactly
  (up to \<open>Number.MAX_SAFE_INTEGER\<close>), parsing what \<open>formatTime\<close> renders gives \<open>s\<close>
  back, and the rendering is \<open>H:MM:SS\<close>: the hours in decimal without padding (no
  leading zero but for \<open>0\<close> itself), the minutes and the seconds as exactly two digits.
\<close>

theorem formatTime_roundtrip:
  assumes "s \<le> MAX_SAFE_INTEGER"
  shows "parseTimeToSeconds (formatTime s) = Num s
       \<and> (\<exists>h m t. formatTime s = h @ [58] @ m @ [58] @ t
            \<and> h \<noteq> [] \<and> list_all is_digit h \<and> dec_value h = s div 3600
            \<and> (hd h = 48 \<longrightarrow> h = [48])
            \<and> length m = 2 \<and> list_all is_digit m \<and> dec_value m = s mod 3600 div 60
            \<and> length t = 2 \<and> list_all is_digit t \<and> dec_value t = s mod 60)"
proof -
  define h where "h = to_string (s div 3600)"
  define m where "m = padStart2 (to_string (s mod 3600 div 60))"
  define t where "t = padStart2 (to_string (s mod 60))"
  have f: "formatTime s = h @ 58 # m @ 58 # t"
    by (simp add: formatTime_def h_def m_def t_def)
  have dh: "list_all is_digit h" "h \<noteq> []" using to_string_digits by (auto simp: h_def)
  have dm: "list_all is_digit m" "m \<noteq> []"
    using to_string_digits padStart2_digits by (auto simp: m_def padStart2_def)
  have dt: "list_all is_digit t" "t \<noteq> []"
    using to_string_digits padStart2_digits by (auto simp: t_def padStart2_def)
  have vh: "dec_value h = s div 3600" by (simp add: h_def dec_value_to_string)
  have vm: "dec_value m = s mod 3600 div 60"
    by (simp add: m_def padStart2_value dec_value_to_string)
  have vt: "dec_value t = s mod 60"
    by (simp add: t_def padStart2_value dec_value_to_string)
  have total: "dec_value h * 3600 + dec_value m * 60 + dec_value t = s"
    unfolding vh vm vt by (rule hms_sum)
  have parse: "parseTimeToSeconds (formatTime s) = Num s"
    using parse_hms [OF dh dm dt] assms unfolding f total by simp
  have lm: "length m = 2"
    unfolding m_def using to_string_digits [of "s mod 3600 div 60"]
    by (intro padStart2_length to_string_length) simp_all
  have lt: "length t = 2"
    unfolding t_def using to_string_digits [of "s mod 60"]
    by (intro padStart2_length to_string_length) simp_all
  have lead: "hd h = 48 \<longrightarrow> h = [48]"
    unfolding h_def using to_string_no_leading_zero by blast
  have "formatTime s = h @ [58] @ m @ [58] @ t" using f by simp
  with parse dh dm dt vh vm vt lm lt lead show ?thesis by blast
qed

theorem formatTime_roundtrip_witness:
  "(3723::nat) \<le> MAX_SAFE_INTEGER
   \<and> formatTime 3723 = js ''1:02:03''
   \<and> parseTimeToSeconds (formatTime 3723) = Num 3723"
proof -
  have h: "(3723::nat) \<le> MAX_SAFE_INTEGER" by (simp add: MAX_SAFE_INTEGER_def)
  have f: "formatTime 3723 = js ''1:02:03''"
    by (simp add: formatTime_def to_string.simps padStart2_def js_def)
  from formatTime_roundtrip [OF h] h f show ?thesis by simp
qed

section \<open>Video identity\<close>

subsection \<open>Searching for a pattern\<close>

lemma match_id_nonempty: "match_id lit url = Some v \<Longrightarrow> v \<noteq> []"
  by (induction url) (auto simp: Let_def split: if_splits)

lemma first_match_nonempty: "first_match ps url = Some v \<Longrightarrow> v \<noteq> []"
  by (induction ps) (auto split: option.splits dest: match_id_nonempty)

lemma getVideoId_nonempty: "getVideoId url = Some v \<Longrightarrow> v \<noteq> []"
  unfolding getVideoId_def by (rule first_match_nonempty)

lemma match_id_skip:
  "lit \<noteq> [] \<Longrightarrow> hd lit \<notin> set p \<Longrightarrow> match_id lit (p @ t) = match_id lit t"
proof (induction p)
  case Nil
  then show ?case by simp
next
  case (Cons c p)
  then have "\<not> prefix lit (c # p @ t)"
    by (cases lit) auto
  with Cons show ?case by simp
qed

lemma match_id_absent:
  "c \<in> set lit \<Longrightarrow> c \<notin> set t \<Longrightarrow> match_id lit t = None"
proof (induction t)
  case Nil
  then show ?case by simp
next
  case (Cons x t)
  have "\<not> prefix lit (x # t)"
  proof
    assume "prefix lit (x # t)"
    then have "set lit \<subseteq> set (x # t)" by (rule set_mono_prefix)
    with Cons.prems show False by auto
  qed
  with Cons show ?case by simp
qed

lemma takeWhile_stop: "q = [] \<or> \<not> P (hd q) \<Longrightarrow> takeWhile P q = []"
  by (cases q) auto

lemma takeWhile_run:
  "\<forall>c\<in>set v. P c \<Longrightarrow> q = [] \<or> \<not> P (hd q) \<Longrightarrow> takeWhile P (v @ q) = v"
  by (simp add: takeWhile_append2 takeWhile_stop)

lemma match_id_here:
  assumes "lit \<noteq> []" "v \<noteq> []" "\<forall>c\<in>set v. id_char c" "q = [] \<or> \<not> id_char (hd q)"
  shows "match_id lit (lit @ v @ q) = Some v"
proof -
  obtain c cs where l: "lit @ v @ q = c # cs"
    using assms(1) by (cases lit) auto
  have "takeWhile id_char (drop (length lit) (lit @ v @ q)) = v"
    using takeWhile_run [of v id_char q] assms(3,4) by simp
  moreover have "prefix lit (lit @ v @ q)" by simp
  ultimately show ?thesis
    using assms(2) unfolding l by simp
qed

lemma match_id_Some_ex:
  "match_id lit url = Some v \<Longrightarrow> \<exists>a c r. url = a @ lit @ c # r \<and> id_char c"
proof (induction url)
  case Nil
  then show ?case by simp
next
  case (Cons x url)
  show ?case
  proof (cases "prefix lit (x # url) \<and> takeWhile id_char (drop (length lit) (x # url)) \<noteq> []")
    case True
    then obtain rest where r: "x # url = lit @ rest" by (auto simp: prefix_def)
    with True have "takeWhile id_char rest \<noteq> []" by simp
    then obtain c r' where "rest = c # r'" "id_char c"
      by (cases rest) (auto split: if_splits)
    with r have "x # url = [] @ lit @ c # r' \<and> id_char c" by simp
    then show ?thesis by blast
  next
    case False
    with Cons.prems have "match_id lit url = Some v" by (auto simp: Let_def)
    with Cons.IH obtain a c r where "url = a @ lit @ c # r" "id_char c" by blast
    then have "x # url = (x # a) @ lit @ c # r \<and> id_char c" by simp
    then show ?thesis by blast
  qed
qed

lemma match_id_ex_Some:
  "id_char c \<Longrightarrow> \<exists>v. match_id lit (a @ lit @ c # r) = Some v"
proof (induction a)
  case Nil
  show ?case
  proof (cases lit)
    case Nil
    with \<open>id_char c\<close> show ?thesis by simp
  next
    case (Cons l ls)
    have "takeWhile id_char (drop (length lit) (lit @ c # r)) \<noteq> []"
      using \<open>id_char c\<close> by simp
    moreover have "prefix lit (lit @ c # r)" by simp
    ultimately show ?thesis unfolding Cons by (simp add: Let_def)
  qed
next
  case (Cons x a)
  then show ?case by (auto simp: Let_def)
qed

lemma match_id_None_iff:
  "match_id lit url = None \<longleftrightarrow> \<not> (\<exists>a c r. url = a @ lit @ c # r \<and> id_char c)"
proof
  assume n: "match_id lit url = None"
  show "\<not> (\<exists>a c r. url = a @ lit @ c # r \<and> id_char c)"
  proof
    assume "\<exists>a c r. url = a @ lit @ c # r \<and> id_char c"
    then obtain a c r where "url = a @ lit @ c # r" "id_char c" by blast
    with match_id_ex_Some [of c lit a r] n show False by auto
  qed
next
  assume "\<not> (\<exists>a c r. url = a @ lit @ c # r \<and> id_char c)"
  with match_id_Some_ex [of lit url] show "match_id lit url = None"
    by (cases "match_id lit url") auto
qed

lemma first_match_None_iff:
  "first_match ps url = None \<longleftrightarrow> (\<forall>lit\<in>set ps. match_id lit url = None)"
  by (induction ps) (auto split: option.splits)

subsection \<open>The three URL forms\<close>

lemma lit_watch: "js ''youtube.com/watch?v='' =
  [121,111,117,116,117,98,101,46,99,111,109,47,119,97,116,99,104,63,118,61]"
  by (simp add: js_def)

lemma lit_short: "js ''youtu.be/'' = [121,111,117,116,117,46,98,101,47]"
  by (simp add: js_def)

lemma lit_embed: "js ''youtube.com/embed/'' =
  [121,111,117,116,117,98,101,46,99,111,109,47,101,109,98,101,100,47]"
  by (simp add: js_def)

lemma watch_not_in_short:
  "47 \<notin> set t \<Longrightarrow> match_id (js ''youtube.com/watch?v='') (js ''youtu.be/'' @ t) = None"
  using match_id_absent [of 47 "js ''youtube.com/watch?v=''" t]
  by (simp add: lit_watch lit_short)

lemma watch_not_in_embed:
  "47 \<notin> set t \<Longrightarrow> match_id (js ''youtube.com/watch?v='') (js ''youtube.com/embed/'' @ t) = None"
  using match_id_absent [of 47 "js ''youtube.com/watch?v=''" t]
  by (simp add: lit_watch lit_embed)

lemma short_not_in_embed:
  "47 \<notin> set t \<Longrightarrow> match_id (js ''youtu.be/'') (js ''youtube.com/embed/'' @ t) = None"
  using match_id_absent [of 47 "js ''youtu.be/''" t]
  by (simp add: lit_short lit_embed)

text \<open>
  Claim C4. Let \<open>v\<close> be a video id: a non-empty string without the delimiters
  \<open>&\<close>, \<open>?\<close>, \<open>#\<close>, newline and without \<open>/\<close>. Then \<open>getVideoId\<close> returns \<open>v\<close> for the
  watch form, the short form and the embed form alike, also after a scheme and host
  prefix \<open>p\<close> in which no pattern can start (no \<open>y\<close>) and before a suffix \<open>q\<close> that is
  empty or starts with a delimiter and holds no \<open>/\<close>. And \<open>getVideoId\<close> returns null
  exactly for the strings in which none of the three forms (a pattern's literal followed
  by an id unit) occurs.
\<close>

theorem getVideoId_forms:
  assumes v: "v \<noteq> []" "list_all (\<lambda>c. id_char c \<and> c \<noteq> 47) v"
    and p: "121 \<notin> set p"
    and q: "q = [] \<or> \<not> id_char (hd q)" "47 \<notin> set q"
  shows "getVideoId (p @ js ''youtube.com/watch?v='' @ v @ q) = Some v
       \<and> getVideoId (p @ js ''youtu.be/'' @ v @ q) = Some v
       \<and> getVideoId (p @ js ''youtube.com/embed/'' @ v @ q) = Some v
       \<and> (getVideoId url = None \<longleftrightarrow>
           \<not> (\<exists>lit a c r. lit \<in> set patterns \<and> url = a @ lit @ c # r \<and> id_char c))"
proof -
  have idv: "\<forall>c\<in>set v. id_char c" using v(2) by (simp add: list_all_iff)
  have ns: "47 \<notin> set (v @ q)" using v(2) q(2) by (auto simp: list_all_iff)
  have hw: "js ''youtube.com/watch?v='' \<noteq> []" "hd (js ''youtube.com/watch?v='') = 121"
    by (simp_all add: lit_watch)
  have hs: "js ''youtu.be/'' \<noteq> []" "hd (js ''youtu.be/'') = 121"
    by (simp_all add: lit_short)
  have he: "js ''youtube.com/embed/'' \<noteq> []" "hd (js ''youtube.com/embed/'') = 121"
    by (simp_all add: lit_embed)
  have w: "match_id (js ''youtube.com/watch?v='') (p @ js ''youtube.com/watch?v='' @ v @ q) = Some v"
    using match_id_skip [OF hw(1), of p] match_id_here [OF hw(1) v(1) idv q(1)] p hw(2) by simp
  have s1: "match_id (js ''youtube.com/watch?v='') (p @ js ''youtu.be/'' @ v @ q) = None"
    using match_id_skip [OF hw(1), of p] watch_not_in_short [OF ns] p hw(2) by simp
  have s2: "match_id (js ''youtu.be/'') (p @ js ''youtu.be/'' @ v @ q) = Some v"
    using match_id_skip [OF hs(1), of p] match_id_here [OF hs(1) v(1) idv q(1)] p hs(2) by simp
  have e1: "match_id (js ''youtube.com/watch?v='') (p @ js ''youtube.com/embed/'' @ v @ q) = None"
    using match_id_skip [OF hw(1), of p] watch_not_in_embed [OF ns] p hw(2) by simp
  have e2: "match_id (js ''youtu.be/'') (p @ js ''youtube.com/embed/'' @ v @ q) = None"
    using match_id_skip [OF hs(1), of p] short_not_in_embed [OF ns] p hs(2) by simp
  have e3: "match_id (js ''youtube.com/embed/'') (p @ js ''youtube.com/embed/'' @ v @ q) = Some v"
    using match_id_skip [OF he(1), of p] match_id_here [OF he(1) v(1) idv q(1)] p he(2) by simp
  have n: "getVideoId url = None \<longleftrightarrow>
           \<not> (\<exists>lit a c r. lit \<in> set patterns \<and> url = a @ lit @ c # r \<and> id_char c)"
    unfolding getVideoId_def first_match_None_iff match_id_None_iff by blast
  show ?thesis
    using w s1 s2 e1 e2 e3 n by (simp add: getVideoId_def patterns_def)
qed

theorem getVideoId_forms_witness:
  "js ''dQw4w9WgXcQ'' \<noteq> []
   \<and> list_all (\<lambda>c. id_char c \<and> c \<noteq> 47) (js ''dQw4w9WgXcQ'')
   \<and> 121 \<notin> set (js ''https://www.'') \<and> 121 \<notin> set (js ''https://'')
   \<and> \<not> id_char (hd (js ''&t=42s'')) \<and> 47 \<notin> set (js ''&t=42s'')
   \<and> getVideoId (js ''https://www.youtube.com/watch?v=dQw4w9WgXcQ&t=42s'') = Some (js ''dQw4w9WgXcQ'')
   \<and> getVideoId (js ''https://youtu.be/dQw4w9WgXcQ'') = Some (js ''dQw4w9WgXcQ'')
   \<and> getVideoId (js ''https://www.youtube.com/embed/dQw4w9WgXcQ'') = Some (js ''dQw4w9WgXcQ'')"
proof -
  have a: "js ''dQw4w9WgXcQ'' \<noteq> []" by (simp add: js_def)
  have b: "list_all (\<lambda>c. id_char c \<and> c \<noteq> 47) (js ''dQw4w9WgXcQ'')"
    by (simp add: js_def id_char_def)
  have c: "121 \<notin> set (js ''https://www.'')" by (simp add: js_def)
  have c': "121 \<notin> set (js ''https://'')" by (simp add: js_def)
  have d: "\<not> id_char (hd (js ''&t=42s''))" by (simp add: js_def id_char_def)
  have e: "47 \<notin> set (js ''&t=42s'')" by (simp add: js_def)
  have d': "js ''&t=42s'' = [] \<or> \<not> id_char (hd (js ''&t=42s''))" using d by simp
  have n: "[] = [] \<or> \<not> id_char (hd ([] :: jsstring))" "47 \<notin> set ([] :: jsstring)" by simp_all
  have j1: "js ''https://www.youtube.com/watch?v=dQw4w9WgXcQ&t=42s''
      = js ''https://www.'' @ js ''youtube.com/watch?v='' @ js ''dQw4w9WgXcQ'' @ js ''&t=42s''"
    by (simp add: js_def)
  have j2: "js ''https://youtu.be/dQw4w9WgXcQ''
      = js ''https://'' @ js ''youtu.be/'' @ js ''dQw4w9WgXcQ'' @ []"
    by (simp add: js_def)
  have j3: "js ''https://www.youtube.com/embed/dQw4w9WgXcQ''
      = js ''https://www.'' @ js ''youtube.com/embed/'' @ js ''dQw4w9WgXcQ'' @ []"
    by (simp add: js_def)
  from getVideoId_forms [OF a b c d' e] getVideoId_forms [OF a b c' n]
    getVideoId_forms [OF a b c n] a b c c' d e
  show ?thesis
    unfolding j1 j2 j3 by blast
qed

section \<open>Loading a video: what loadVideo does\<close>

text \<open>
  Claim C10. When the entered URL does not normalise to a video id, \<open>loadVideo\<close> only
  sets the error message: it sends no request (the trace is empty) and leaves the
  messages, the timestamps, the video id and the video title as they were, whatever
  the server would have answered.
\<close>

theorem loadVideo_invalid_url:
  assumes "getVideoId (videoUrl st) = None"
  shows "loadVideo r1 r2 st = (st\<lparr>error := js ''Please enter a valid YouTube URL''\<rparr>, [])
       \<and> snd (loadVideo r1 r2 st) = []
       \<and> error (fst (loadVideo r1 r2 st)) = js ''Please enter a valid YouTube URL''
       \<and> messages (fst (loadVideo r1 r2 st)) = messages st
       \<and> timestamps (fst (loadVideo r1 r2 st)) = timestamps st
       \<and> videoId (fst (loadVideo r1 r2 st)) = videoId st
       \<and> videoTitle (fst (loadVideo r1 r2 st)) = videoTitle st"
  using assms by (simp add: loadVideo_def)

lemma no_id_in_text: "getVideoId (js ''not a url'') = None"
  by (simp add: getVideoId_def patterns_def js_def)

theorem loadVideo_invalid_url_witness:
  "getVideoId (videoUrl \<lparr>videoUrl = js ''not a url'', messages = [UserMsg (js ''hi'')],
       videoId = js ''abc'', videoTitle = js ''Old'', timestamps = [], error = []\<rparr>) = None
   \<and> loadVideo Rejected Rejected
        \<lparr>videoUrl = js ''not a url'', messages = [UserMsg (js ''hi'')],
         videoId = js ''abc'', videoTitle = js ''Old'', timestamps = [], error = []\<rparr>
     = (\<lparr>videoUrl = js ''not a url'', messages = [UserMsg (js ''hi'')],
         videoId = js ''abc'', videoTitle = js ''Old'', timestamps = [],
         error = js ''Please enter a valid YouTube URL''\<rparr>, [])"
proof -
  let ?st = "\<lparr>videoUrl = js ''not a url'', messages = [UserMsg (js ''hi'')],
       videoId = js ''abc'', videoTitle = js ''Old'', timestamps = [], error = []\<rparr>"
  have h: "getVideoId (videoUrl ?st) = None" by (simp add: no_id_in_text)
  from loadVideo_invalid_url [OF h, of Rejected Rejected] h show ?thesis
    by simp
qed

text \<open>The only hand-over from the structural to the generative builder is inside
  \<open>createTimestampsFromTranscript\<close>, when the transcript is missing.\<close>

lemma structural_fallback:
  "snd (createTimestampsFromTranscript cap r (Some d) st) = [Invoke CreateTimestampsFromTranscript]
   \<and> snd (createTimestampsFromTranscript cap r None st)
       = [Invoke CreateTimestampsFromTranscript, Invoke GenerateAITimestamps,
          Fetch (js ''/smart-question'') (videoUrl cap)]"
  by (simp add: createTimestampsFromTranscript_def generateAITimestamps_def Let_def split_beta
      split: reply.splits option.splits)

lemma short_id: "getVideoId (js ''https://youtu.be/abc'') = Some (js ''abc'')"
  by (simp add: getVideoId_def patterns_def js_def id_char_def)

text \<open>
  Claim C1, as stated, fails: \<open>loadVideo\<close> never runs the structural builder. On a
  successful load of \<open>https://youtu.be/abc\<close> the trace is the transcript request, then
  the generative builder with its request; \<open>createTimestampsFromTranscript\<close> does not
  occur in it, so it did not run before the generative request.
\<close>

theorem structural_first_counterexample:
  "snd (loadVideo
        (Replied \<lparr>py_success = True, py_video_title = Some (js ''T''), py_error = None\<rparr>)
        (Replied \<lparr>sq_success = True, sq_video_title = None,
                  sq_answer = Some (js ''0:00:00 - Intro'')\<rparr>)
        \<lparr>videoUrl = js ''https://youtu.be/abc'', messages = [], videoId = [],
         videoTitle = [], timestamps = [], error = []\<rparr>)
     = [Fetch (js ''/process-youtube'') (js ''https://youtu.be/abc''),
        Invoke GenerateAITimestamps,
        Fetch (js ''/smart-question'') (js ''https://youtu.be/abc'')]"
  by (simp add: loadVideo_def short_id generateAITimestamps_def Let_def) (simp add: js_def)

text \<open>
  Claim C1, amended. On every successful load (the URL normalises to an id and the
  transcript request is answered with success) \<open>loadVideo\<close> invokes the generative
  builder, once and unconditionally, right after the transcript request, and does not
  invoke the structural builder.
\<close>

theorem loadVideo_always_generative:
  assumes "getVideoId (videoUrl st) = Some ident" and "py_success d"
  shows "snd (loadVideo (Replied d) r2 st)
       = [Fetch (js ''/process-youtube'') (videoUrl st),
          Invoke GenerateAITimestamps,
          Fetch (js ''/smart-question'') (videoUrl st)]
       \<and> Invoke CreateTimestampsFromTranscript \<notin> set (snd (loadVideo (Replied d) r2 st))"
proof -
  have ne: "ident \<noteq> []" using assms(1) by (rule getVideoId_nonempty)
  have g: "snd (generateAITimestamps c u r s)
         = [Invoke GenerateAITimestamps, Fetch (js ''/smart-question'') u]" for c u r s
    by (simp add: generateAITimestamps_def Let_def split: reply.splits option.splits)
  have "snd (loadVideo (Replied d) r2 st)
       = [Fetch (js ''/process-youtube'') (videoUrl st),
          Invoke GenerateAITimestamps,
          Fetch (js ''/smart-question'') (videoUrl st)]"
    using assms ne by (simp add: loadVideo_def Let_def split_beta g)
  then show ?thesis by simp
qed

theorem loadVideo_always_generative_witness:
  "getVideoId (videoUrl \<lparr>videoUrl = js ''https://youtu.be/abc'', messages = [], videoId = [],
         videoTitle = [], timestamps = [], error = []\<rparr>) = Some (js ''abc'')
   \<and> py_success \<lparr>py_success = True, py_video_title = None, py_error = None\<rparr>
   \<and> snd (loadVideo
        (Replied \<lparr>py_success = True, py_video_title = None, py_error = None\<rparr>)
        Rejected
        \<lparr>videoUrl = js ''https://youtu.be/abc'', messages = [], videoId = [],
         videoTitle = [], timestamps = [], error = []\<rparr>)
     = [Fetch (js ''/process-youtube'') (js ''https://youtu.be/abc''),
        Invoke GenerateAITimestamps,
        Fetch (js ''/smart-question'') (js ''https://youtu.be/abc'')]"
proof -
  let ?st = "\<lparr>videoUrl = js ''https://youtu.be/abc'', messages = [], videoId = [],
         videoTitle = [], timestamps = [], error = []\<rparr>"
  let ?d = "\<lparr>py_success = True, py_video_title = None, py_error = None\<rparr>"
  have a: "getVideoId (videoUrl ?st) = Some (js ''abc'')" by (simp add: short_id)
  have b: "py_success ?d" by simp
  from loadVideo_always_generative [OF a b, of Rejected] a b show ?thesis
    by simp
qed

section \<open>The structural chapter builder\<close>

subsection \<open>The loop visits the multiples of the stride\<close>

lemma filter_upt_skip:
  assumes "a \<le> b" "\<forall>j. a \<le> j \<and> j < b \<longrightarrow> \<not> P j"
  shows "filter P [a..<n] = filter P [b..<n]"
proof (cases "b \<le> n")
  case True
  then have "[a..<n] = [a..<b] @ [b..<n]"
    using assms(1) by (metis le_Suc_ex upt_add_eq_append)
  moreover have "filter P [a..<b] = []" using assms(2) by (auto simp: filter_empty_conv)
  ultimately show ?thesis by simp
next
  case False
  then have "filter P [a..<n] = []" using assms(2) by (auto simp: filter_empty_conv)
  moreover have "[b..<n] = []" using False by simp
  ultimately show ?thesis by (simp del: upt_eq_Nil_conv)
qed

lemma filter_dvd_step:
  assumes "0 < k" "k dvd i" "i < n"
  shows "filter (\<lambda>j. k dvd j) [i..<n] = i # filter (\<lambda>j. k dvd j) [i + k..<n]"
proof -
  have "\<not> k dvd j" if "Suc i \<le> j \<and> j < i + k" for j
  proof
    assume "k dvd j"
    with assms(2) have "k dvd (j - i)" by (simp add: dvd_diff_nat)
    moreover have "0 < j - i" "j - i < k" using that by auto
    ultimately show False by (simp add: nat_dvd_not_less)
  qed
  then have "filter (\<lambda>j. k dvd j) [Suc i..<n] = filter (\<lambda>j. k dvd j) [i + k..<n]"
    using assms(1) by (intro filter_upt_skip) auto
  moreover have "[i..<n] = i # [Suc i..<n]" using assms(3) by (simp add: upt_conv_Cons)
  ultimately show ?thesis using assms(2) by simp
qed

lemma chapter_loop_visits:
  "max 50 (length d div 15) dvd i \<Longrightarrow>
   chapter_loop d i acc
     = acc @ concat (map (\<lambda>j. bucket (d ! j))
                      (filter (\<lambda>j. max 50 (length d div 15) dvd j) [i..<length d]))"
proof (induction d i acc rule: chapter_loop.induct)
  case (1 d i acc)
  let ?k = "max 50 (length d div 15)"
  show ?case
  proof (cases "i < length d")
    case True
    have k: "0 < ?k" by simp
    have "?k dvd i + ?k" using "1.prems" by simp
    with "1.IH" [OF True] have "chapter_loop d (i + ?k) (acc @ bucket (d ! i))
      = (acc @ bucket (d ! i)) @ concat (map (\<lambda>j. bucket (d ! j))
           (filter (\<lambda>j. ?k dvd j) [i + ?k..<length d]))" by simp
    moreover have "chapter_loop d i acc = chapter_loop d (i + ?k) (acc @ bucket (d ! i))"
      using True by (subst chapter_loop.simps) simp
    ultimately show ?thesis
      using filter_dvd_step [OF k "1.prems" True] by simp
  next
    case False
    then show ?thesis by (subst chapter_loop.simps) simp
  qed
qed

lemma structural_chapters_visited:
  "structural_chapters d = concat (map (\<lambda>j. bucket (d ! j)) (visited (length d))) @ conclusion d"
  using chapter_loop_visits [of d 0 "[]"] by (simp add: structural_chapters_def visited_def)

lemma visited_bound: "j \<in> set (visited n) \<Longrightarrow> j < n"
  by (simp add: visited_def)

lemma visited_sorted: "sorted_wrt (<) (visited n)"
  unfolding visited_def by (rule sorted_wrt_filter) (simp add: strict_sorted_iff)

subsection \<open>The title of a bucket\<close>

lemma split_on_word_no_sep: "w \<in> set (split_on sep s) \<Longrightarrow> sep \<notin> set w"
proof (induction s arbitrary: w)
  case Nil
  then show ?case by simp
next
  case (Cons c s)
  then show ?case by (cases "split_on sep s") (auto split: if_splits)
qed

lemma split_on_join_sp:
  "ws \<noteq> [] \<Longrightarrow> \<forall>w\<in>set ws. 32 \<notin> set w \<Longrightarrow> split_on 32 (join_sp ws) = ws"
proof (induction ws rule: join_sp.induct)
  case 1
  then show ?case by simp
next
  case (2 w)
  then show ?case by (simp add: split_on_none)
next
  case (3 w v ws)
  then show ?case by (simp add: split_on_first)
qed

lemma chapterTitle_words:
  assumes "chapterTitle txt \<noteq> []"
  shows "split_on 32 (chapterTitle txt)
       = take 3 (filter significant (split_on 32 (strip_numbering (strip_lead_in (trim txt)))))"
proof -
  let ?all = "split_on 32 (strip_numbering (strip_lead_in (trim txt)))"
  let ?ws = "take 3 (filter significant ?all)"
  have t: "chapterTitle txt = join_sp ?ws" by (simp add: chapterTitle_def)
  with assms have ne: "?ws \<noteq> []" by auto
  have "set ?ws \<subseteq> set ?all" by (auto dest: in_set_takeD)
  then have "\<forall>w\<in>set ?ws. 32 \<notin> set w" using split_on_word_no_sep by blast
  with ne show ?thesis unfolding t by (rule split_on_join_sp)
qed

lemma conclusion_last_conv:
  "conclusion d = (if d \<noteq> [] \<and> truthy (end_formatted (last d))
     then [\<lparr>time = the (end_formatted (last d)), title = js ''Conclusion'',
            seconds = parseTimeToSeconds (the (end_formatted (last d)))\<rparr>]
     else [])"
  by (auto simp: conclusion_def last_conv_nth Let_def)

subsection \<open>Evaluating the builders\<close>

lemmas time_eval = parseTimeToSeconds_def Number_def trim_def is_ws_def is_digit_def
  dec_value_def safe_def MAX_SAFE_INTEGER_def js_def

lemmas title_eval = chapterTitle_def strip_lead_in_def strip_numbering_def lead_ins_def
  stop_words_def significant_def toLowerCase_def lower_def trim_def is_ws_def is_digit_def js_def
  Let_def

lemmas gen_eval = generative_chapters_def line_chapter_def chapter_at_def time_at_def
  title_group_def is_digit_def is_ws_def is_lt_def trim_def dec_value_def to_string.simps
  padStart2_def js_def Let_def

lemma title_photosynthesis:
  "chapterTitle (js ''Welcome to understanding photosynthesis thoroughly everyone'')
   = js ''understanding photosynthesis thoroughly''"
  by (simp add: title_eval)

lemma bucket_photosynthesis:
  "bucket \<lparr>seg_text = Some (js ''Welcome to understanding photosynthesis thoroughly everyone''),
      start_formatted = Some (js ''0:00:00''), end_formatted = Some (js ''0:00:04'')\<rparr>
   = [\<lparr>time = js ''0:00:00'', title = js ''understanding photosynthesi...'', seconds = Num 0\<rparr>]"
  by (simp add: bucket_def truthy_def title_photosynthesis) (simp add: time_eval)

lemma title_light:
  "chapterTitle (js ''Tip 2: the light reactions happen first'') = js ''light reactions happen''"
  by (simp add: title_eval)

lemma bucket_light:
  "bucket \<lparr>seg_text = Some (js ''Tip 2: the light reactions happen first''),
      start_formatted = Some (js ''0:04:10''), end_formatted = Some (js ''0:04:15'')\<rparr>
   = [\<lparr>time = js ''0:04:10'', title = js ''light reactions happen'', seconds = Num 250\<rparr>]"
  by (simp add: bucket_def truthy_def title_light) (simp add: time_eval)

lemma visited_51: "visited 51 = [0, 50]"
proof -
  have "filter (\<lambda>j. 50 dvd j) [0..<51] = 0 # filter (\<lambda>j. (50::nat) dvd j) [0 + 50..<51]"
    by (rule filter_dvd_step) simp_all
  also have "filter (\<lambda>j. (50::nat) dvd j) [0 + 50..<51] = [50]"
    by (simp add: upt_conv_Cons)
  finally show ?thesis by (simp add: visited_def)
qed

text \<open>
  Claim C7. The structural builder, on a list of \<open>n\<close> segments, visits the positions
  \<open>0, k, 2k, \<dots>\<close> below \<open>n\<close> for the stride \<open>k = max(50, floor(n/15))\<close> and appends the
  chapter of each visited segment in that order, then the conclusion. A visited
  segment gives a chapter exactly when it has a text and a \<open>start_formatted\<close> and its
  title is longer than 3 units; the chapter carries the segment's start. The title is
  made of the first three significant words (longer than 2 units, no stop word) of the
  trimmed text after the lead-ins are stripped. The conclusion is a chapter titled
  \<open>Conclusion\<close> at the last segment's \<open>end_formatted\<close>, when the list is not empty and
  the last segment has that field.
\<close>

theorem structural_strategy:
  "structural_chapters d
     = concat (map (\<lambda>j. bucket (d ! j)) (visited (length d))) @ conclusion d
   \<and> visited (length d) = filter (\<lambda>j. max 50 (length d div 15) dvd j) [0..<length d]
   \<and> (bucket seg \<noteq> [] \<longleftrightarrow>
        truthy (seg_text seg) \<and> truthy (start_formatted seg)
        \<and> length (chapterTitle (the (seg_text seg))) > 3)
   \<and> (\<forall>c\<in>set (bucket seg).
        time c = the (start_formatted seg)
        \<and> seconds c = parseTimeToSeconds (the (start_formatted seg))
        \<and> title c = (if length (chapterTitle (the (seg_text seg))) > 30
                      then take 27 (chapterTitle (the (seg_text seg))) @ js ''...''
                      else chapterTitle (the (seg_text seg))))
   \<and> chapterTitle txt
       = join_sp (take 3 (filter significant
           (split_on 32 (strip_numbering (strip_lead_in (trim txt))))))
   \<and> (chapterTitle txt \<noteq> [] \<longrightarrow>
        split_on 32 (chapterTitle txt)
        = take 3 (filter significant
            (split_on 32 (strip_numbering (strip_lead_in (trim txt))))))
   \<and> conclusion d = (if d \<noteq> [] \<and> truthy (end_formatted (last d))
        then [\<lparr>time = the (end_formatted (last d)), title = js ''Conclusion'',
               seconds = parseTimeToSeconds (the (end_formatted (last d)))\<rparr>]
        else [])"
proof -
  have b1: "bucket seg \<noteq> [] \<longleftrightarrow>
        truthy (seg_text seg) \<and> truthy (start_formatted seg)
        \<and> length (chapterTitle (the (seg_text seg))) > 3"
    by (auto simp: bucket_def Let_def)
  have b2: "\<forall>c\<in>set (bucket seg).
        time c = the (start_formatted seg)
        \<and> seconds c = parseTimeToSeconds (the (start_formatted seg))
        \<and> title c = (if length (chapterTitle (the (seg_text seg))) > 30
                      then take 27 (chapterTitle (the (seg_text seg))) @ js ''...''
                      else chapterTitle (the (seg_text seg)))"
    by (simp add: bucket_def Let_def)
  have t: "chapterTitle txt
       = join_sp (take 3 (filter significant
           (split_on 32 (strip_numbering (strip_lead_in (trim txt))))))"
    by (simp add: chapterTitle_def)
  note v = structural_chapters_visited [of d]
  note w = chapterTitle_words [of "txt"]
  note c = conclusion_last_conv [of d]
  show ?thesis
    using v b1 b2 t w c by (simp add: visited_def)
qed

theorem structural_strategy_witness:
  "structural_chapters
     (replicate 50 \<lparr>seg_text = Some (js ''Welcome to understanding photosynthesis thoroughly everyone''),
                    start_formatted = Some (js ''0:00:00''),
                    end_formatted = Some (js ''0:00:04'')\<rparr>
      @ [\<lparr>seg_text = Some (js ''Tip 2: the light reactions happen first''),
          start_formatted = Some (js ''0:04:10''), end_formatted = Some (js ''0:04:15'')\<rparr>])
   = [\<lparr>time = js ''0:00:00'', title = js ''understanding photosynthesi...'', seconds = Num 0\<rparr>,
      \<lparr>time = js ''0:04:10'', title = js ''light reactions happen'', seconds = Num 250\<rparr>,
      \<lparr>time = js ''0:04:15'', title = js ''Conclusion'', seconds = Num 255\<rparr>]"
proof -
  let ?a = "\<lparr>seg_text = Some (js ''Welcome to understanding photosynthesis thoroughly everyone''),
             start_formatted = Some (js ''0:00:00''), end_formatted = Some (js ''0:00:04'')\<rparr>"
  let ?b = "\<lparr>seg_text = Some (js ''Tip 2: the light reactions happen first''),
             start_formatted = Some (js ''0:04:10''), end_formatted = Some (js ''0:04:15'')\<rparr>"
  let ?d = "replicate 50 ?a @ [?b]"
  have n: "length ?d = 51" by simp
  have i0: "?d ! 0 = ?a" by (simp add: nth_append)
  have i50: "?d ! 50 = ?b" by (simp add: nth_append)
  have c: "conclusion ?d = [\<lparr>time = js ''0:04:15'', title = js ''Conclusion'', seconds = Num 255\<rparr>]"
    by (simp add: conclusion_last_conv truthy_def) (simp add: time_eval)
  have "structural_chapters ?d
     = concat (map (\<lambda>j. bucket (?d ! j)) (visited (length ?d))) @ conclusion ?d"
    using structural_strategy [of ?d] by blast
  then show ?thesis
    unfolding n visited_51 by (simp add: i0 i50 bucket_photosynthesis bucket_light c)
qed

section \<open>Order and titles of the chapters\<close>

subsection \<open>Order\<close>

lemma num_le_trans: "num_le a b \<Longrightarrow> num_le b c \<Longrightarrow> num_le a c"
  by (cases a; cases b; cases c) auto

lemma bucket_seconds: "c \<in> set (bucket seg) \<Longrightarrow> seconds c = seg_start seg"
  by (auto simp: bucket_def seg_start_def truthy_def Let_def split: if_splits option.splits)

lemma conclusion_last:
  "d \<noteq> [] \<Longrightarrow> truthy (end_formatted (last d)) \<Longrightarrow>
   conclusion d = [\<lparr>time = the (end_formatted (last d)), title = js ''Conclusion'',
                    seconds = seg_end (last d)\<rparr>]"
  by (auto simp: conclusion_last_conv seg_end_def truthy_def split: option.splits)

lemma sorted_wrt_concat_map:
  assumes "\<And>a. a \<in> set ks \<Longrightarrow> sorted_wrt R (f a)"
    and "sorted_wrt (\<lambda>a b. \<forall>x\<in>set (f a). \<forall>y\<in>set (f b). R x y) ks"
  shows "sorted_wrt R (concat (map f ks))"
  using assms by (induction ks) (auto simp: sorted_wrt_append)

lemma bucket_sorted: "sorted_wrt R (bucket seg)"
  by (simp add: bucket_def Let_def)

lemma start_order_nth:
  assumes "sorted_wrt num_le (map seg_start d)" "i < j" "j < length d"
  shows "num_le (seg_start (d ! i)) (seg_start (d ! j))"
  using assms sorted_wrt_nth_less [of num_le "map seg_start d" i j] by simp

lemma split_on_nonempty: "split_on sep s \<noteq> []"
  by (induction s) (auto split: list.splits)

lemma split_on_append_sep: "split_on sep (a @ sep # b) = split_on sep a @ split_on sep b"
  by (induction a) (auto split: list.splits simp: split_on_nonempty)

lemma two_lines:
  "generative_chapters (js ''0:05:00 - B'' @ [10] @ js ''0:01:00 - A'')
  = [\<lparr>time = js ''0:05:00'', title = js ''B'', seconds = Num 300\<rparr>,
     \<lparr>time = js ''0:01:00'', title = js ''A'', seconds = Num 60\<rparr>]"
  by (simp add: gen_eval)

text \<open>
  Claim C2, as stated, fails for the generative strategy: it keeps the chapters in the
  order of the answer's lines. An answer that lists 0:05:00 before 0:01:00 gives the
  seconds 300, 60.
\<close>

theorem chapter_order_counterexample:
  "map seconds (generative_chapters (js ''0:05:00 - B'' @ [10] @ js ''0:01:00 - A''))
     = [Num 300, Num 60]
   \<and> \<not> sorted_wrt num_le
        (map seconds (generative_chapters (js ''0:05:00 - B'' @ [10] @ js ''0:01:00 - A'')))"
  using two_lines by simp

text \<open>
  Claim C2, amended. For the structural strategy on a non-empty segment list whose start
  times are non-decreasing, whose last segment has an \<open>end_formatted\<close> field and ends no
  earlier than it starts, the seconds of the chapters are non-decreasing in list order and
  the final chapter's seconds is the last segment's end time. The generative strategy
  does not sort: the chapters of an answer are those of its lines, in the order of the
  lines.
\<close>

theorem chapter_order:
  assumes ord: "sorted_wrt num_le (map seg_start d)"
    and ne: "d \<noteq> []"
    and fin: "truthy (end_formatted (last d))"
    and le: "num_le (seg_start (last d)) (seg_end (last d))"
  shows "sorted_wrt num_le (map seconds (structural_chapters d))
       \<and> seconds (last (structural_chapters d)) = seg_end (last d)
       \<and> generative_chapters (a @ [10] @ b) = generative_chapters a @ generative_chapters b"
proof -
  let ?b = "concat (map (\<lambda>j. bucket (d ! j)) (visited (length d)))"
  let ?c = "\<lparr>time = the (end_formatted (last d)), title = js ''Conclusion'',
            seconds = seg_end (last d)\<rparr>"
  have s: "structural_chapters d = ?b @ [?c]"
    by (simp add: structural_chapters_visited conclusion_last [OF ne fin])
  have pair: "\<forall>x\<in>set (bucket (d ! i)). \<forall>y\<in>set (bucket (d ! j)). num_le (seconds x) (seconds y)"
    if "i < j" "j < length d" for i j
    using start_order_nth [OF ord that] by (simp add: bucket_seconds)
  have "sorted_wrt (\<lambda>i j. \<forall>x\<in>set (bucket (d ! i)). \<forall>y\<in>set (bucket (d ! j)).
          num_le (seconds x) (seconds y)) (visited (length d))"
    by (rule sorted_wrt_mono_rel [OF _ visited_sorted]) (use pair visited_bound in blast)
  then have sb: "sorted_wrt (\<lambda>x y. num_le (seconds x) (seconds y)) ?b"
    by (intro sorted_wrt_concat_map bucket_sorted)
  have fin_le: "num_le (seconds x) (seg_end (last d))" if "x \<in> set ?b" for x
  proof -
    from that obtain j where j: "j < length d" "x \<in> set (bucket (d ! j))"
      using visited_bound by auto
    then have x: "seconds x = seg_start (d ! j)" by (simp add: bucket_seconds)
    show ?thesis
    proof (cases "j = length d - 1")
      case True
      then show ?thesis using le ne x by (simp add: last_conv_nth)
    next
      case False
      with j have "j < length d - 1" by simp
      then have "num_le (seg_start (d ! j)) (seg_start (last d))"
        using start_order_nth [OF ord, of j "length d - 1"] ne by (simp add: last_conv_nth)
      with le x show ?thesis by (auto intro: num_le_trans)
    qed
  qed
  have "sorted_wrt num_le (map seconds (?b @ [?c]))"
    using sb fin_le by (simp add: sorted_wrt_map sorted_wrt_append)
  moreover have "generative_chapters (a @ [10] @ b) = generative_chapters a @ generative_chapters b"
    by (simp add: generative_chapters_def split_on_append_sep)
  ultimately show ?thesis using s by simp
qed

theorem chapter_order_witness:
  "sorted_wrt num_le (map seg_start
      [\<lparr>seg_text = Some (js ''Welcome to understanding photosynthesis thoroughly everyone''),
        start_formatted = Some (js ''0:00:00''), end_formatted = Some (js ''0:00:04'')\<rparr>,
       \<lparr>seg_text = Some (js ''Tip 2: the light reactions happen first''),
        start_formatted = Some (js ''0:04:10''), end_formatted = Some (js ''0:04:15'')\<rparr>])
   \<and> num_le (seg_start \<lparr>seg_text = Some (js ''Tip 2: the light reactions happen first''),
        start_formatted = Some (js ''0:04:10''), end_formatted = Some (js ''0:04:15'')\<rparr>)
       (seg_end \<lparr>seg_text = Some (js ''Tip 2: the light reactions happen first''),
        start_formatted = Some (js ''0:04:10''), end_formatted = Some (js ''0:04:15'')\<rparr>)
   \<and> sorted_wrt num_le (map seconds (structural_chapters
      [\<lparr>seg_text = Some (js ''Welcome to understanding photosynthesis thoroughly everyone''),
        start_formatted = Some (js ''0:00:00''), end_formatted = Some (js ''0:00:04'')\<rparr>,
       \<lparr>seg_text = Some (js ''Tip 2: the light reactions happen first''),
        start_formatted = Some (js ''0:04:10''), end_formatted = Some (js ''0:04:15'')\<rparr>]))
   \<and> seconds (last (structural_chapters
      [\<lparr>seg_text = Some (js ''Welcome to understanding photosynthesis thoroughly everyone''),
        start_formatted = Some (js ''0:00:00''), end_formatted = Some (js ''0:00:04'')\<rparr>,
       \<lparr>seg_text = Some (js ''Tip 2: the light reactions happen first''),
        start_formatted = Some (js ''0:04:10''), end_formatted = Some (js ''0:04:15'')\<rparr>]))
     = Num 255"
proof -
  let ?a = "\<lparr>seg_text = Some (js ''Welcome to understanding photosynthesis thoroughly everyone''),
             start_formatted = Some (js ''0:00:00''), end_formatted = Some (js ''0:00:04'')\<rparr>"
  let ?b = "\<lparr>seg_text = Some (js ''Tip 2: the light reactions happen first''),
             start_formatted = Some (js ''0:04:10''), end_formatted = Some (js ''0:04:15'')\<rparr>"
  have sa: "seg_start ?a = Num 0" by (simp add: seg_start_def) (simp add: time_eval)
  have sb: "seg_start ?b = Num 250" by (simp add: seg_start_def) (simp add: time_eval)
  have eb: "seg_end ?b = Num 255" by (simp add: seg_end_def) (simp add: time_eval)
  have h1: "sorted_wrt num_le (map seg_start [?a, ?b])" by (simp add: sa sb)
  have h2: "[?a, ?b] \<noteq> []" by simp
  have h3: "truthy (end_formatted (last [?a, ?b]))" by (simp add: truthy_def js_def)
  have h4: "num_le (seg_start (last [?a, ?b])) (seg_end (last [?a, ?b]))" by (simp add: sb eb)
  from chapter_order [OF h1 h2 h3 h4] h1 h4 eb show ?thesis by simp
qed

subsection \<open>Titles\<close>

lemma ellipsis_length:
  "length (if length raw > n + 3 then take n raw @ js ''...'' else raw) \<le> n + 3"
  by (simp add: js_def)

lemma forty_units:
  "generative_chapters (js ''0:00:00 - Introduction to the course and its goals'')
  = [\<lparr>time = js ''0:00:00'', title = js ''Introduction to the course and its goals'',
      seconds = Num 0\<rparr>]"
  by (simp add: gen_eval)

text \<open>
  Claim C5, as stated, fails for the generative strategy, whose bound is 40 and not 30:
  a title of 40 units is kept whole, with no ellipsis.
\<close>

theorem title_bound_counterexample:
  "map title (generative_chapters (js ''0:00:00 - Introduction to the course and its goals''))
     = [js ''Introduction to the course and its goals'']
   \<and> length (js ''Introduction to the course and its goals'') = 40
   \<and> \<not> list_all (\<lambda>c. length (title c) \<le> 30)
        (generative_chapters (js ''0:00:00 - Introduction to the course and its goals''))"
  by (simp add: forty_units) (simp add: js_def)

text \<open>
  Claim C5, amended. A chapter of the structural strategy has a title of at most 30
  units: \<open>Conclusion\<close>, or the title of a segment's text, cut to its first 27 units
  followed by \<open>...\<close> when it is longer than 30. A chapter of the generative strategy has
  a title of at most 40 units: the title group of its line, trimmed and without \<open>**\<close>,
  cut to its first 37 units followed by \<open>...\<close> when it is longer than 40.
\<close>

theorem title_bounds:
  "(\<forall>c\<in>set (structural_chapters d).
      length (title c) \<le> 30
      \<and> (title c = js ''Conclusion''
         \<or> (\<exists>seg\<in>set d. \<exists>raw. raw = chapterTitle (the (seg_text seg))
              \<and> title c = (if length raw > 30 then take 27 raw @ js ''...'' else raw))))
   \<and> (\<forall>c\<in>set (generative_chapters answer).
      length (title c) \<le> 40
      \<and> (\<exists>line\<in>set (split_on 10 answer). \<exists>g1 g2 g3 g4 raw.
            line_match line = Some (g1, g2, g3, g4) \<and> raw = remove_bold (trim g4)
            \<and> title c = (if length raw > 40 then take 37 raw @ js ''...'' else raw)))"
proof (intro conjI ballI)
  fix c assume "c \<in> set (structural_chapters d)"
  then consider j where "j < length d" "c \<in> set (bucket (d ! j))" | "c \<in> set (conclusion d)"
    unfolding structural_chapters_visited using visited_bound by auto
  then have "title c = js ''Conclusion''
         \<or> (\<exists>seg\<in>set d. \<exists>raw. raw = chapterTitle (the (seg_text seg))
              \<and> title c = (if length raw > 30 then take 27 raw @ js ''...'' else raw))"
  proof cases
    case 1
    then have "d ! j \<in> set d" by simp
    moreover have "title c = (if length (chapterTitle (the (seg_text (d ! j)))) > 30
        then take 27 (chapterTitle (the (seg_text (d ! j)))) @ js ''...''
        else chapterTitle (the (seg_text (d ! j))))"
      using 1(2) by (auto simp: bucket_def Let_def split: if_splits)
    ultimately show ?thesis by blast
  next
    case 2
    then show ?thesis by (auto simp: conclusion_def Let_def split: if_splits)
  qed
  moreover have "length (js ''Conclusion'') \<le> 30" by (simp add: js_def)
  ultimately show "length (title c) \<le> 30" using ellipsis_length [of 27] by auto
  show "title c = js ''Conclusion''
         \<or> (\<exists>seg\<in>set d. \<exists>raw. raw = chapterTitle (the (seg_text seg))
              \<and> title c = (if length raw > 30 then take 27 raw @ js ''...'' else raw))"
    by fact
next
  fix c assume "c \<in> set (generative_chapters answer)"
  then obtain line where l: "line \<in> set (split_on 10 answer)" "c \<in> set (line_chapter line)"
    by (auto simp: generative_chapters_def)
  then obtain g1 g2 g3 g4 where m: "line_match line = Some (g1, g2, g3, g4)"
    by (cases "line_match line") (auto simp: line_chapter_def)
  with l(2) have t: "title c = (if length (remove_bold (trim g4)) > 40
      then take 37 (remove_bold (trim g4)) @ js ''...'' else remove_bold (trim g4))"
    by (simp add: line_chapter_def Let_def)
  then show "length (title c) \<le> 40" using ellipsis_length [of 37 "remove_bold (trim g4)"] by simp
  show "\<exists>line\<in>set (split_on 10 answer). \<exists>g1 g2 g3 g4 raw.
            line_match line = Some (g1, g2, g3, g4) \<and> raw = remove_bold (trim g4)
            \<and> title c = (if length raw > 40 then take 37 raw @ js ''...'' else raw)"
    using l(1) m t by blast
qed

theorem title_bounds_witness:
  "list_all (\<lambda>c. length (title c) \<le> 30)
     (structural_chapters
       [\<lparr>seg_text = Some (js ''Welcome to understanding photosynthesis thoroughly everyone''),
         start_formatted = Some (js ''0:00:00''), end_formatted = Some (js ''0:00:04'')\<rparr>])
   \<and> list_all (\<lambda>c. length (title c) \<le> 40)
       (generative_chapters (js ''0:00:00 - Introduction to the course and its goals''))"
  using title_bounds
    [of "[\<lparr>seg_text = Some (js ''Welcome to understanding photosynthesis thoroughly everyone''),
           start_formatted = Some (js ''0:00:00''), end_formatted = Some (js ''0:00:04'')\<rparr>]"
        "js ''0:00:00 - Introduction to the course and its goals''"]
  unfolding list_all_iff by blast

section \<open>The parser of the generative builder\<close>

subsection \<open>The pattern and the matcher\<close>

lemma lt_ws: "is_lt c \<Longrightarrow> is_ws c"
  by (auto simp: is_lt_def is_ws_def)

lemma mmss_Some:
  assumes "(case r1 of
              c1 # m1 # m2 # c2 # s1 # s2 # r2 \<Rightarrow>
                if c1 = 58 \<and> is_digit m1 \<and> is_digit m2 \<and> c2 = 58
                   \<and> is_digit s1 \<and> is_digit s2
                then Some (h0, [m1, m2], [s1, s2], r2) else None
            | _ \<Rightarrow> None) = Some (h, m, sec, r)"
  shows "h = h0 \<and> r1 = [58] @ m @ [58] @ sec @ r
       \<and> length m = 2 \<and> list_all is_digit m \<and> length sec = 2 \<and> list_all is_digit sec"
  using assms by (auto split: list.splits if_splits)

lemma time_at_Some:
  assumes "time_at s = Some (h, m, sec, r)"
  shows "s = h @ [58] @ m @ [58] @ sec @ r
       \<and> (length h = 1 \<or> length h = 2) \<and> list_all is_digit h
       \<and> length m = 2 \<and> list_all is_digit m \<and> length sec = 2 \<and> list_all is_digit sec"
proof -
  from assms obtain a b r0 where s: "s = a # b # r0"
    by (auto simp: time_at_def split: list.splits)
  have da: "is_digit a" using assms unfolding s time_at_def by (auto split: if_splits)
  show ?thesis
  proof (cases "is_digit b")
    case True
    with da assms have "h = [a, b] \<and> r0 = [58] @ m @ [58] @ sec @ r
       \<and> length m = 2 \<and> list_all is_digit m \<and> length sec = 2 \<and> list_all is_digit sec"
      unfolding s time_at_def by (intro mmss_Some) simp
    with da True s show ?thesis by simp
  next
    case False
    with da assms have "h = [a] \<and> b # r0 = [58] @ m @ [58] @ sec @ r
       \<and> length m = 2 \<and> list_all is_digit m \<and> length sec = 2 \<and> list_all is_digit sec"
      unfolding s time_at_def by (intro mmss_Some) simp
    with da s show ?thesis by simp
  qed
qed

lemma time_at_complete:
  assumes "length h = 1 \<or> length h = 2" "list_all is_digit h"
    "length m = 2" "list_all is_digit m" "length sec = 2" "list_all is_digit sec"
  shows "time_at (h @ [58] @ m @ [58] @ sec @ r) = Some (h, m, sec, r)"
proof -
  obtain m1 m2 where m: "m = [m1, m2]"
    using assms(3) by (cases m; cases "tl m") auto
  obtain s1 s2 where s: "sec = [s1, s2]"
    using assms(5) by (cases sec; cases "tl sec") auto
  have n58: "\<not> is_digit 58" by (simp add: is_digit_def)
  from assms(1) show ?thesis
  proof
    assume "length h = 1"
    then obtain a where "h = [a]" by (cases h) auto
    with assms(2,4,6) m s n58 show ?thesis by (simp add: time_at_def)
  next
    assume "length h = 2"
    then obtain a b where "h = [a, b]" by (cases h; cases "tl h") auto
    with assms(2,4,6) m s show ?thesis by (simp add: time_at_def)
  qed
qed

lemma title_group_rest:
  "dropWhile is_ws r \<noteq> [] \<Longrightarrow>
   title_group r = Some (takeWhile (\<lambda>c. \<not> is_lt c) (dropWhile is_ws r))"
  by (simp add: title_group_def Let_def)

lemma title_group_all_ws:
  "dropWhile is_ws r = [] \<Longrightarrow>
   title_group r = (case dropWhile is_lt (rev r) of [] \<Rightarrow> None | c # _ \<Rightarrow> Some [c])"
  by (simp add: title_group_def Let_def takeWhile_eq_all_conv [THEN iffD2])

lemma title_group_Some:
  assumes "title_group r = Some t"
  shows "\<exists>w2 post. r = w2 @ t @ post \<and> list_all is_ws w2 \<and> t \<noteq> [] \<and> list_all (\<lambda>c. \<not> is_lt c) t"
proof (cases "dropWhile is_ws r = []")
  case False
  let ?rest = "dropWhile is_ws r"
  from False assms have t: "t = takeWhile (\<lambda>c. \<not> is_lt c) ?rest"
    by (simp add: title_group_rest)
  have "\<not> is_ws (hd ?rest)" using False by (rule hd_dropWhile)
  then have "\<not> is_lt (hd ?rest)" using lt_ws by blast
  with False have ne: "t \<noteq> []" unfolding t by (cases ?rest) auto
  have "r = takeWhile is_ws r @ t @ dropWhile (\<lambda>c. \<not> is_lt c) ?rest"
    unfolding t by simp
  moreover have "list_all is_ws (takeWhile is_ws r)"
    by (auto simp: list_all_iff dest: set_takeWhileD)
  moreover have "list_all (\<lambda>c. \<not> is_lt c) t"
    unfolding t by (auto simp: list_all_iff dest: set_takeWhileD)
  ultimately show ?thesis using ne by blast
next
  case True
  then have all: "\<forall>c\<in>set r. is_ws c" by (simp add: dropWhile_eq_Nil_conv)
  from assms obtain c tl where d: "dropWhile is_lt (rev r) = c # tl" and t: "t = [c]"
    unfolding title_group_all_ws [OF True] by (auto split: list.splits)
  have nl: "\<not> is_lt c" using hd_dropWhile [of is_lt "rev r"] d by simp
  have "rev r = takeWhile is_lt (rev r) @ c # tl"
    using takeWhile_dropWhile_id [of is_lt "rev r"] d by simp
  then have "rev (rev r) = rev (takeWhile is_lt (rev r) @ c # tl)" by simp
  then have r: "r = rev tl @ [c] @ rev (takeWhile is_lt (rev r))" by simp
  have "set r = set (rev tl @ [c] @ rev (takeWhile is_lt (rev r)))"
    using r by (rule arg_cong)
  then have "set (rev tl) \<subseteq> set r" by auto
  with all have "list_all is_ws (rev tl)" by (auto simp: list_all_iff)
  moreover have "r = rev tl @ t @ rev (takeWhile is_lt (rev r))" using r t by simp
  moreover have "t \<noteq> []" "list_all (\<lambda>c. \<not> is_lt c) t" using t nl by simp_all
  ultimately show ?thesis by blast
qed

lemma title_group_complete:
  assumes "list_all is_ws w2" "t \<noteq> []" "list_all (\<lambda>c. \<not> is_lt c) t"
  shows "title_group (w2 @ t @ post) \<noteq> None"
proof (cases "dropWhile is_ws (w2 @ t @ post) = []")
  case False
  from title_group_rest [OF False] show ?thesis by simp
next
  case True
  let ?r = "w2 @ t @ post"
  obtain c where c: "c \<in> set t" "\<not> is_lt c"
    using assms(2,3) by (cases t) auto
  then have "c \<in> set (rev ?r)" by simp
  with c(2) have "dropWhile is_lt (rev ?r) \<noteq> []"
    by (simp only: dropWhile_eq_Nil_conv) blast
  then obtain x xs where "dropWhile is_lt (rev ?r) = x # xs"
    by (cases "dropWhile is_lt (rev ?r)") auto
  with title_group_all_ws [OF True] show ?thesis by simp
qed

lemma dash_not_ws: "d = 45 \<or> d = 8211 \<Longrightarrow> \<not> is_ws d"
  by (auto simp: is_ws_def)

lemma chapter_at_Some:
  assumes "chapter_at s = Some (h, m, sec, t)"
  shows "\<exists>w1 d w2 post. s = h @ [58] @ m @ [58] @ sec @ w1 @ [d] @ w2 @ t @ post
       \<and> (length h = 1 \<or> length h = 2) \<and> list_all is_digit h
       \<and> length m = 2 \<and> list_all is_digit m \<and> length sec = 2 \<and> list_all is_digit sec
       \<and> list_all is_ws w1 \<and> (d = 45 \<or> d = 8211) \<and> list_all is_ws w2
       \<and> t \<noteq> [] \<and> list_all (\<lambda>c. \<not> is_lt c) t"
proof -
  from assms obtain r d r2 where ta: "time_at s = Some (h, m, sec, r)"
    and dw: "dropWhile is_ws r = d # r2" and d: "d = 45 \<or> d = 8211"
    and tg: "title_group r2 = Some t"
    unfolding chapter_at_def
    by (auto split: option.splits prod.splits list.splits if_splits)
  from title_group_Some [OF tg] obtain w2 post where
    r2: "r2 = w2 @ t @ post" "list_all is_ws w2" "t \<noteq> []" "list_all (\<lambda>c. \<not> is_lt c) t"
    by blast
  have "r = takeWhile is_ws r @ dropWhile is_ws r" by simp
  then have r: "r = takeWhile is_ws r @ [d] @ w2 @ t @ post" using dw r2(1) by simp
  have w1: "list_all is_ws (takeWhile is_ws r)"
    by (auto simp: list_all_iff dest: set_takeWhileD)
  from time_at_Some [OF ta] have
    "s = h @ [58] @ m @ [58] @ sec @ takeWhile is_ws r @ [d] @ w2 @ t @ post"
    and rest: "(length h = 1 \<or> length h = 2) \<and> list_all is_digit h
       \<and> length m = 2 \<and> list_all is_digit m \<and> length sec = 2 \<and> list_all is_digit sec"
    using r by auto
  with w1 d r2 show ?thesis by blast
qed

lemma chapter_at_complete:
  assumes "length h = 1 \<or> length h = 2" "list_all is_digit h"
    "length m = 2" "list_all is_digit m" "length sec = 2" "list_all is_digit sec"
    "list_all is_ws w1" "d = 45 \<or> d = 8211" "list_all is_ws w2"
    "t \<noteq> []" "list_all (\<lambda>c. \<not> is_lt c) t"
  shows "chapter_at (h @ [58] @ m @ [58] @ sec @ w1 @ [d] @ w2 @ t @ post) \<noteq> None"
proof -
  have ta: "time_at (h @ [58] @ m @ [58] @ sec @ (w1 @ [d] @ w2 @ t @ post))
      = Some (h, m, sec, w1 @ [d] @ w2 @ t @ post)"
    using assms(1-6) by (rule time_at_complete)
  have "dropWhile is_ws (w1 @ [d] @ w2 @ t @ post) = dropWhile is_ws ([d] @ w2 @ t @ post)"
    using assms(7) by (intro dropWhile_append2) (simp add: list_all_iff)
  then have dw: "dropWhile is_ws (w1 @ [d] @ w2 @ t @ post) = d # (w2 @ t @ post)"
    using dash_not_ws [OF assms(8)] by simp
  obtain g where "title_group (w2 @ t @ post) = Some g"
    using title_group_complete [OF assms(9-11), of post] by auto
  with ta dw assms(8) show ?thesis by (simp add: chapter_at_def)
qed

lemma line_match_Some:
  "line_match line = Some g \<Longrightarrow> \<exists>pre s. line = pre @ s \<and> chapter_at s = Some g"
proof (induction line)
  case Nil
  then show ?case by simp
next
  case (Cons c cs)
  show ?case
  proof (cases "chapter_at (c # cs)")
    case None
    with Cons obtain pre s where "cs = pre @ s" "chapter_at s = Some g" by auto
    then have "c # cs = (c # pre) @ s \<and> chapter_at s = Some g" by simp
    then show ?thesis by blast
  next
    case (Some a)
    with Cons.prems have "c # cs = [] @ (c # cs) \<and> chapter_at (c # cs) = Some g" by simp
    then show ?thesis by blast
  qed
qed

lemma chapter_at_Nil: "chapter_at [] = None"
  by (simp add: chapter_at_def time_at_def)

lemma line_match_complete:
  "chapter_at s \<noteq> None \<Longrightarrow> line_match (pre @ s) \<noteq> None"
proof (induction pre)
  case Nil
  then show ?case by (cases s) (auto simp: chapter_at_Nil)
next
  case (Cons c pre)
  then show ?case by (auto split: option.splits)
qed

lemma line_match_None_iff: "line_match line = None \<longleftrightarrow> \<not> chapter_pattern line"
proof
  assume n: "line_match line = None"
  show "\<not> chapter_pattern line"
  proof
    assume "chapter_pattern line"
    then obtain pre h m s w1 d w2 t post where
      l: "line = pre @ (h @ [58] @ m @ [58] @ s @ w1 @ [d] @ w2 @ t @ post)"
      and c: "length h = 1 \<or> length h = 2" "list_all is_digit h"
        "length m = 2" "list_all is_digit m" "length s = 2" "list_all is_digit s"
        "list_all is_ws w1" "d = 45 \<or> d = 8211" "list_all is_ws w2"
        "t \<noteq> []" "list_all (\<lambda>c. \<not> is_lt c) t"
      unfolding chapter_pattern_def by auto
    have "chapter_at (h @ [58] @ m @ [58] @ s @ w1 @ [d] @ w2 @ t @ post) \<noteq> None"
      by (rule chapter_at_complete [OF c])
    then have "line_match line \<noteq> None" unfolding l by (rule line_match_complete)
    with n show False by contradiction
  qed
next
  assume np: "\<not> chapter_pattern line"
  show "line_match line = None"
  proof (rule ccontr)
    assume "line_match line \<noteq> None"
    then obtain h m sec t where "line_match line = Some (h, m, sec, t)" by auto
    from line_match_Some [OF this] obtain pre s where
      l: "line = pre @ s" and c: "chapter_at s = Some (h, m, sec, t)" by blast
    from chapter_at_Some [OF c] obtain w1 d w2 post where
      s: "s = h @ [58] @ m @ [58] @ sec @ w1 @ [d] @ w2 @ t @ post"
      and k: "(length h = 1 \<or> length h = 2) \<and> list_all is_digit h
       \<and> length m = 2 \<and> list_all is_digit m \<and> length sec = 2 \<and> list_all is_digit sec
       \<and> list_all is_ws w1 \<and> (d = 45 \<or> d = 8211) \<and> list_all is_ws w2
       \<and> t \<noteq> [] \<and> list_all (\<lambda>c. \<not> is_lt c) t"
      by blast
    have "line = pre @ h @ [58] @ m @ [58] @ sec @ w1 @ [d] @ w2 @ t @ post"
      unfolding l s by simp
    with k have "chapter_pattern line"
      unfolding chapter_pattern_def
      by (rule_tac x = pre in exI, rule_tac x = h in exI, rule_tac x = m in exI,
          rule_tac x = sec in exI, rule_tac x = w1 in exI, rule_tac x = d in exI,
          rule_tac x = w2 in exI, rule_tac x = t in exI, rule_tac x = post in exI) simp
    with np show False by contradiction
  qed
qed

subsection \<open>Titles without bold marks\<close>

lemma remove_bold_head: "b \<noteq> 42 \<Longrightarrow> remove_bold (b # r) = b # remove_bold r"
  by (cases r) auto

lemma remove_bold_successively:
  "successively (\<lambda>a b. \<not> (a = 42 \<and> b = 42)) (remove_bold s)"
proof (induction s rule: remove_bold.induct)
  case (1 a b r)
  show ?case
  proof (cases "a = 42 \<and> b = 42")
    case True
    with 1 show ?thesis by simp
  next
    case False
    with 1 have ih: "successively (\<lambda>a b. \<not> (a = 42 \<and> b = 42)) (remove_bold (b # r))" by simp
    show ?thesis
    proof (cases "a = 42")
      case True
      with False have "b \<noteq> 42" by simp
      then have "remove_bold (b # r) = b # remove_bold r" by (rule remove_bold_head)
      with ih False \<open>b \<noteq> 42\<close> show ?thesis by (simp add: successively_Cons)
    next
      case False
      with ih show ?thesis by (simp add: successively_Cons)
    qed
  qed
qed simp_all

lemma no_bold_infix:
  assumes "successively (\<lambda>a b. \<not> (a = 42 \<and> b = 42)) s"
  shows "\<not> (\<exists>a b. s = a @ js ''**'' @ b)"
proof
  assume "\<exists>a b. s = a @ js ''**'' @ b"
  then obtain a b where "s = a @ (42 # 42 # b)" by (auto simp: js_def)
  with assms have "successively (\<lambda>a b. \<not> (a = 42 \<and> b = 42)) (42 # 42 # b)"
    by (simp add: successively_append_iff)
  then show False by simp
qed

lemma ellipsis_successively:
  assumes "successively (\<lambda>a b. \<not> (a = 42 \<and> b = 42)) s"
  shows "successively (\<lambda>a b. \<not> (a = 42 \<and> b = 42))
           (if length s > n + 3 then take n s @ js ''...'' else s)"
proof -
  have "successively (\<lambda>a b. \<not> (a = 42 \<and> b = 42)) (take n s @ drop n s)" using assms by simp
  then have "successively (\<lambda>a b. \<not> (a = 42 \<and> b = 42)) (take n s)"
    unfolding successively_append_iff by blast
  then have "successively (\<lambda>a b. \<not> (a = 42 \<and> b = 42)) (take n s @ js ''...'')"
    by (simp add: successively_append_iff js_def)
  with assms show ?thesis by simp
qed

lemma line_chapter_cases:
  "line_chapter line = [] \<longleftrightarrow> line_match line = None"
  by (auto simp: line_chapter_def Let_def split: option.splits)

subsection \<open>The leftmost match fixes the chapter\<close>

lemma trim_ws_unit: "is_ws c \<Longrightarrow> trim [c] = []"
  by (simp add: trim_def)

lemma title_group_trim:
  assumes "title_group r = Some t"
  shows "trim t = trim (takeWhile (\<lambda>c. \<not> is_lt c) (dropWhile is_ws r))"
proof (cases "dropWhile is_ws r = []")
  case False
  with assms show ?thesis by (simp add: title_group_rest)
next
  case True
  then have all: "\<forall>c\<in>set r. is_ws c" by (simp add: dropWhile_eq_Nil_conv)
  from assms obtain c tl where d: "dropWhile is_lt (rev r) = c # tl" and t: "t = [c]"
    unfolding title_group_all_ws [OF True] by (auto split: list.splits)
  have "c \<in> set (dropWhile is_lt (rev r))" using d by simp
  then have "c \<in> set (rev r)" by (rule set_dropWhileD)
  with all have "is_ws c" by simp
  then have "trim t = []" unfolding t by (rule trim_ws_unit)
  moreover have "trim (takeWhile (\<lambda>c. \<not> is_lt c) (dropWhile is_ws r)) = []"
    unfolding True by (simp add: trim_def)
  ultimately show ?thesis by simp
qed

lemma title_group_defined: "\<not> list_all is_lt r \<Longrightarrow> title_group r \<noteq> None"
proof (cases "dropWhile is_ws r = []")
  case False
  from title_group_rest [OF False] show ?thesis by simp
next
  case True
  assume "\<not> list_all is_lt r"
  then obtain c where "c \<in> set (rev r)" "\<not> is_lt c" by (auto simp: list_all_iff)
  then have "dropWhile is_lt (rev r) \<noteq> []"
    by (simp only: dropWhile_eq_Nil_conv) blast
  then obtain x xs where "dropWhile is_lt (rev r) = x # xs"
    by (cases "dropWhile is_lt (rev r)") auto
  with title_group_all_ws [OF True] show ?thesis by simp
qed

lemma title_group_needs: "title_group r = Some t \<Longrightarrow> \<not> list_all is_lt r"
proof -
  assume "title_group r = Some t"
  from title_group_Some [OF this] obtain w2 post where
    "r = w2 @ t @ post" "t \<noteq> []" "list_all (\<lambda>c. \<not> is_lt c) t" by blast
  then show ?thesis by (cases t) (auto simp: list_all_iff)
qed

lemma chapter_at_pattern:
  assumes "chapter_at s = Some (h, m, sec, t)"
  shows "\<exists>r. pattern_at s h m sec r
           \<and> trim t = trim (takeWhile (\<lambda>c. \<not> is_lt c) (dropWhile is_ws r))"
proof -
  from assms obtain r0 d r where ta: "time_at s = Some (h, m, sec, r0)"
    and dw: "dropWhile is_ws r0 = d # r" and d: "d = 45 \<or> d = 8211"
    and tg: "title_group r = Some t"
    unfolding chapter_at_def
    by (auto split: option.splits prod.splits list.splits if_splits)
  have "r0 = takeWhile is_ws r0 @ dropWhile is_ws r0" by simp
  then have r0: "r0 = takeWhile is_ws r0 @ [d] @ r" using dw by simp
  have w1: "list_all is_ws (takeWhile is_ws r0)"
    by (auto simp: list_all_iff dest: set_takeWhileD)
  from time_at_Some [OF ta] have
    "s = h @ [58] @ m @ [58] @ sec @ takeWhile is_ws r0 @ [d] @ r"
    and "(length h = 1 \<or> length h = 2) \<and> list_all is_digit h
       \<and> length m = 2 \<and> list_all is_digit m \<and> length sec = 2 \<and> list_all is_digit sec"
    using r0 by auto
  with w1 d title_group_needs [OF tg] have "pattern_at s h m sec r"
    unfolding pattern_at_def
    by (rule_tac x = "takeWhile is_ws r0" in exI, rule_tac x = d in exI) simp
  with title_group_trim [OF tg] show ?thesis by blast
qed

lemma pattern_chapter_at:
  assumes "pattern_at s h m sec r"
  shows "\<exists>t. chapter_at s = Some (h, m, sec, t)
           \<and> trim t = trim (takeWhile (\<lambda>c. \<not> is_lt c) (dropWhile is_ws r))"
proof -
  from assms obtain w1 d where s: "s = h @ [58] @ m @ [58] @ sec @ (w1 @ [d] @ r)"
    and c: "length h = 1 \<or> length h = 2" "list_all is_digit h"
      "length m = 2" "list_all is_digit m" "length sec = 2" "list_all is_digit sec"
    and w: "list_all is_ws w1" and d: "d = 45 \<or> d = 8211" and n: "\<not> list_all is_lt r"
    unfolding pattern_at_def by auto
  have ta: "time_at s = Some (h, m, sec, w1 @ [d] @ r)"
    unfolding s using c by (rule time_at_complete)
  have "dropWhile is_ws (w1 @ [d] @ r) = dropWhile is_ws ([d] @ r)"
    using w by (intro dropWhile_append2) (simp add: list_all_iff)
  then have dw: "dropWhile is_ws (w1 @ [d] @ r) = d # r"
    using dash_not_ws [OF d] by simp
  obtain t where tg: "title_group r = Some t"
    using title_group_defined [OF n] by auto
  with ta dw d have "chapter_at s = Some (h, m, sec, t)" by (simp add: chapter_at_def)
  with title_group_trim [OF tg] show ?thesis by blast
qed

lemma pattern_iff_chapter_at:
  "(\<exists>h m sec r. pattern_at s h m sec r) \<longleftrightarrow> chapter_at s \<noteq> None"
proof
  assume "\<exists>h m sec r. pattern_at s h m sec r"
  then obtain h m sec r where "pattern_at s h m sec r" by blast
  from pattern_chapter_at [OF this] show "chapter_at s \<noteq> None" by auto
next
  assume "chapter_at s \<noteq> None"
  then obtain h m sec t where "chapter_at s = Some (h, m, sec, t)" by auto
  from chapter_at_pattern [OF this] show "\<exists>h m sec r. pattern_at s h m sec r" by blast
qed

lemma line_match_skip:
  "k \<le> length line \<Longrightarrow> \<forall>j<k. chapter_at (drop j line) = None \<Longrightarrow>
   line_match line = line_match (drop k line)"
proof (induction k)
  case 0
  then show ?case by simp
next
  case (Suc k)
  then have ih: "line_match line = line_match (drop k line)" by simp
  have "drop k line = line ! k # drop (Suc k) line"
    using Suc.prems(1) by (simp add: Cons_nth_drop_Suc)
  moreover have "chapter_at (drop k line) = None" using Suc.prems(2) by simp
  ultimately have "line_match (drop k line) = line_match (drop (Suc k) line)"
    by (metis line_match.simps(2) option.simps(4))
  with ih show ?case by simp
qed

lemma line_match_first:
  "line_match line = Some g \<Longrightarrow>
   \<exists>k\<le>length line. chapter_at (drop k line) = Some g
      \<and> (\<forall>j<k. chapter_at (drop j line) = None)"
proof (induction line)
  case Nil
  then show ?case by simp
next
  case (Cons c cs)
  show ?case
  proof (cases "chapter_at (c # cs)")
    case (Some a)
    with Cons.prems have "chapter_at (drop 0 (c # cs)) = Some g" by simp
    then show ?thesis by (intro exI [of _ 0]) simp
  next
    case None
    with Cons obtain k where k: "k \<le> length cs" "chapter_at (drop k cs) = Some g"
      "\<forall>j<k. chapter_at (drop j cs) = None" by auto
    have "\<forall>j<Suc k. chapter_at (drop j (c # cs)) = None"
    proof (intro allI impI)
      fix j assume "j < Suc k"
      then show "chapter_at (drop j (c # cs)) = None"
        using None k(3) by (cases j) auto
    qed
    with k(1,2) show ?thesis by (intro exI [of _ "Suc k"]) simp
  qed
qed

lemma chapter_at_line_match: "chapter_at s = Some g \<Longrightarrow> line_match s = Some g"
  by (cases s) (auto simp: chapter_at_Nil)

lemma leftmost_line_match:
  assumes "leftmost_match line pre h m sec r"
  shows "\<exists>t. line_match line = Some (h, m, sec, t)
           \<and> trim t = trim (takeWhile (\<lambda>c. \<not> is_lt c) (dropWhile is_ws r))"
proof -
  from assms obtain s where l: "line = pre @ s" and p: "pattern_at s h m sec r"
    and first: "\<forall>k<length pre. \<not> (\<exists>h' m' sec' r'. pattern_at (drop k line) h' m' sec' r')"
    unfolding leftmost_match_def by blast
  from pattern_chapter_at [OF p] obtain t where
    t: "chapter_at s = Some (h, m, sec, t)"
       "trim t = trim (takeWhile (\<lambda>c. \<not> is_lt c) (dropWhile is_ws r))" by blast
  have none: "\<forall>j<length pre. chapter_at (drop j line) = None"
    using first pattern_iff_chapter_at by blast
  have "length pre \<le> length line" using l by simp
  from line_match_skip [OF this none] have "line_match line = line_match s"
    using l by simp
  with chapter_at_line_match [OF t(1)] t(2) show ?thesis by simp
qed

lemma pattern_leftmost:
  assumes "chapter_pattern line"
  shows "\<exists>pre h m sec r. leftmost_match line pre h m sec r"
proof -
  from assms have "line_match line \<noteq> None" by (simp add: line_match_None_iff)
  then obtain h m sec t where "line_match line = Some (h, m, sec, t)" by auto
  from line_match_first [OF this] obtain k where k: "k \<le> length line"
    "chapter_at (drop k line) = Some (h, m, sec, t)"
    "\<forall>j<k. chapter_at (drop j line) = None" by blast
  from chapter_at_pattern [OF k(2)] obtain r where r: "pattern_at (drop k line) h m sec r"
    by blast
  have len: "length (take k line) = k" using k(1) by simp
  have "\<forall>j<length (take k line). \<not> (\<exists>h' m' sec' r'. pattern_at (drop j line) h' m' sec' r')"
    unfolding len using k(3) pattern_iff_chapter_at by blast
  moreover have "line = take k line @ drop k line" by simp
  ultimately have "leftmost_match line (take k line) h m sec r"
    unfolding leftmost_match_def using r by blast
  then show ?thesis by blast
qed

lemma two_digits_shown:
  assumes "length m = 2" "list_all is_digit m"
  shows "padStart2 (to_string (dec_value m)) = m"
proof -
  from assms(1) obtain a b where m: "m = [a, b]" by (cases m; cases "tl m") auto
  from assms(2) have da: "48 \<le> a" "a \<le> 57" and db: "48 \<le> b" "b \<le> 57"
    by (simp_all add: m is_digit_def)
  define x where "x = a - 48"
  define y where "y = b - 48"
  have a: "a = 48 + x" "x \<le> 9" using da by (simp_all add: x_def)
  have b: "b = 48 + y" "y \<le> 9" using db by (simp_all add: y_def)
  have v: "dec_value m = 10 * x + y" by (simp add: m a b dec_value_def)
  have ts: "to_string (10 * x + y) = (if x = 0 then [48 + y] else [48 + x, 48 + y])"
  proof (cases "x = 0")
    case True
    then show ?thesis using b(2) by (simp add: to_string.simps [of y])
  next
    case False
    have "(10 * x + y) div 10 = x" "(10 * x + y) mod 10 = y" using b(2) by simp_all
    then show ?thesis
      using False a(2)
      by (simp add: to_string.simps [of "10 * x + y"] to_string.simps [of x])
  qed
  have "padStart2 (to_string (10 * x + y)) = [48 + x, 48 + y]"
    unfolding ts by (simp add: padStart2_def)
  moreover have "dec_value [48 + x, 48 + y] = 10 * x + y" by (simp add: dec_value_def)
  ultimately show ?thesis unfolding m a(1) b(1) by (simp only:)
qed

text \<open>
  Claim C6. The parser of the generative builder accepts a line exactly when the chapter
  pattern occurs in it (\<open>H:MM:SS\<close>, optional white space, a hyphen or an en-dash,
  optional white space, a title), and a line in which it does not occur gives no
  chapter. An accepted line gives exactly one chapter, fixed by the leftmost place where
  the pattern is found, and every accepted line has such a place: the chapter's seconds
  are \<open>H*3600 + MM*60 + SS\<close> for the digits found there, its time is these digits with
  the hours unpadded, and its title is what follows the separator up to the end of the
  line, trimmed, with every \<open>**\<close> removed (and cut at 40 units). No \<open>**\<close> is left in
  a title, and the chapters of an answer are those of its lines.
\<close>

theorem chapter_line_parser:
  "(line_chapter line = [] \<longleftrightarrow> \<not> chapter_pattern line)
   \<and> (chapter_pattern line \<longrightarrow> (\<exists>pre h m sec r. leftmost_match line pre h m sec r))
   \<and> (leftmost_match line pre h m sec r \<longrightarrow>
        line_chapter line =
          [\<lparr>time = to_string (dec_value h) @ [58] @ m @ [58] @ sec,
            title =
              (if length (remove_bold (trim (takeWhile (\<lambda>c. \<not> is_lt c) (dropWhile is_ws r)))) > 40
               then take 37 (remove_bold (trim (takeWhile (\<lambda>c. \<not> is_lt c) (dropWhile is_ws r))))
                    @ js ''...''
               else remove_bold (trim (takeWhile (\<lambda>c. \<not> is_lt c) (dropWhile is_ws r)))),
            seconds = Num (dec_value h * 3600 + dec_value m * 60 + dec_value sec)\<rparr>])
   \<and> (\<forall>c\<in>set (line_chapter line). \<not> (\<exists>a b. title c = a @ js ''**'' @ b))
   \<and> \<not> (\<exists>a b. remove_bold x = a @ js ''**'' @ b)
   \<and> generative_chapters answer = concat (map line_chapter (split_on 10 answer))"
proof (intro conjI impI ballI)
  show "line_chapter line = [] \<longleftrightarrow> \<not> chapter_pattern line"
    by (simp add: line_chapter_cases line_match_None_iff)
  show "\<not> (\<exists>a b. remove_bold x = a @ js ''**'' @ b)"
    by (rule no_bold_infix [OF remove_bold_successively])
  show "generative_chapters answer = concat (map line_chapter (split_on 10 answer))"
    by (simp add: generative_chapters_def)
next
  assume "chapter_pattern line"
  then show "\<exists>pre h m sec r. leftmost_match line pre h m sec r" by (rule pattern_leftmost)
next
  assume lm: "leftmost_match line pre h m sec r"
  from leftmost_line_match [OF this] obtain t where
    t: "line_match line = Some (h, m, sec, t)"
       "trim t = trim (takeWhile (\<lambda>c. \<not> is_lt c) (dropWhile is_ws r))" by blast
  from lm have "length m = 2" "list_all is_digit m" "length sec = 2" "list_all is_digit sec"
    unfolding leftmost_match_def pattern_at_def by auto
  then have "padStart2 (to_string (dec_value m)) = m" "padStart2 (to_string (dec_value sec)) = sec"
    by (simp_all add: two_digits_shown)
  then show "line_chapter line =
          [\<lparr>time = to_string (dec_value h) @ [58] @ m @ [58] @ sec,
            title =
              (if length (remove_bold (trim (takeWhile (\<lambda>c. \<not> is_lt c) (dropWhile is_ws r)))) > 40
               then take 37 (remove_bold (trim (takeWhile (\<lambda>c. \<not> is_lt c) (dropWhile is_ws r))))
                    @ js ''...''
               else remove_bold (trim (takeWhile (\<lambda>c. \<not> is_lt c) (dropWhile is_ws r)))),
            seconds = Num (dec_value h * 3600 + dec_value m * 60 + dec_value sec)\<rparr>]"
    using t by (simp add: line_chapter_def Let_def)
next
  fix c assume c: "c \<in> set (line_chapter line)"
  then obtain h m sec t where lm: "line_match line = Some (h, m, sec, t)"
    by (cases "line_match line") (auto simp: line_chapter_def)
  with c have tc: "title c = (if length (remove_bold (trim t)) > 40
                      then take 37 (remove_bold (trim t)) @ js ''...''
                      else remove_bold (trim t))"
    by (simp add: line_chapter_def Let_def)
  show "\<not> (\<exists>a b. title c = a @ js ''**'' @ b)"
    unfolding tc
    using ellipsis_successively [OF remove_bold_successively, of 37 "trim t"]
    by (intro no_bold_infix) simp
qed

lemma no_time: "line_chapter (js ''Intro at 1:02'') = []"
  by (simp add: gen_eval)

lemma intro_pattern:
  "pattern_at (js ''12:34:56 - Intro'') (js ''12'') (js ''34'') (js ''56'') (js '' Intro'')"
  unfolding pattern_at_def
  by (rule_tac x = "js '' ''" in exI, rule_tac x = 45 in exI)
     (simp add: js_def is_digit_def is_ws_def is_lt_def)

lemma deep_pattern:
  "pattern_at (js ''1:02:03 '' @ [8211] @ js '' **Deep** dive'')
     (js ''1'') (js ''02'') (js ''03'') (js '' **Deep** dive'')"
  unfolding pattern_at_def
  by (rule_tac x = "js '' ''" in exI, rule_tac x = 8211 in exI)
     (simp add: js_def is_digit_def is_ws_def is_lt_def)

lemma deep_nothing_before:
  "\<forall>k<length (js ''Chapter 2: '').
     chapter_at (drop k (js ''Chapter 2: '' @ js ''1:02:03 '' @ [8211] @ js '' **Deep** dive'')) = None"
proof -
  have "\<forall>k\<in>set [0..<11].
     chapter_at (drop k (js ''Chapter 2: '' @ js ''1:02:03 '' @ [8211] @ js '' **Deep** dive'')) = None"
    by (simp add: upt_rec js_def chapter_at_def time_at_def is_digit_def)
  then show ?thesis by (simp add: js_def)
qed

theorem chapter_line_parser_witness:
  "leftmost_match (js ''12:34:56 - Intro'') [] (js ''12'') (js ''34'') (js ''56'') (js '' Intro'')
   \<and> line_chapter (js ''12:34:56 - Intro'')
       = [\<lparr>time = js ''12:34:56'', title = js ''Intro'', seconds = Num 45296\<rparr>]
   \<and> leftmost_match (js ''Chapter 2: '' @ js ''1:02:03 '' @ [8211] @ js '' **Deep** dive'')
        (js ''Chapter 2: '') (js ''1'') (js ''02'') (js ''03'') (js '' **Deep** dive'')
   \<and> line_chapter (js ''Chapter 2: '' @ js ''1:02:03 '' @ [8211] @ js '' **Deep** dive'')
       = [\<lparr>time = js ''1:02:03'', title = js ''Deep dive'', seconds = Num 3723\<rparr>]
   \<and> \<not> chapter_pattern (js ''Intro at 1:02'')"
proof -
  have a: "leftmost_match (js ''12:34:56 - Intro'') [] (js ''12'') (js ''34'') (js ''56'')
             (js '' Intro'')"
    unfolding leftmost_match_def using intro_pattern by simp
  have b: "leftmost_match (js ''Chapter 2: '' @ js ''1:02:03 '' @ [8211] @ js '' **Deep** dive'')
        (js ''Chapter 2: '') (js ''1'') (js ''02'') (js ''03'') (js '' **Deep** dive'')"
    unfolding leftmost_match_def
    using deep_pattern deep_nothing_before pattern_iff_chapter_at by blast
  have va: "line_chapter (js ''12:34:56 - Intro'')
       = [\<lparr>time = js ''12:34:56'', title = js ''Intro'', seconds = Num 45296\<rparr>]"
    using chapter_line_parser [of "js ''12:34:56 - Intro''" "[]" "js ''12''" "js ''34''" "js ''56''"
        "js '' Intro''"] a
    by (simp add: js_def dec_value_def to_string.simps trim_def is_ws_def is_lt_def)
  have vb: "line_chapter (js ''Chapter 2: '' @ js ''1:02:03 '' @ [8211] @ js '' **Deep** dive'')
       = [\<lparr>time = js ''1:02:03'', title = js ''Deep dive'', seconds = Num 3723\<rparr>]"
    using chapter_line_parser [of "js ''Chapter 2: '' @ js ''1:02:03 '' @ [8211] @ js '' **Deep** dive''"
        "js ''Chapter 2: ''" "js ''1''" "js ''02''" "js ''03''" "js '' **Deep** dive''"] b
    by (simp add: js_def dec_value_def to_string.simps trim_def is_ws_def is_lt_def)
  have c: "\<not> chapter_pattern (js ''Intro at 1:02'')"
    using chapter_line_parser [of "js ''Intro at 1:02''"] no_time by simp
  from a b va vb c show ?thesis by simp
qed

section \<open>Citations in an answer\<close>

lemmas format_eval = formatText_def bold_at_def italic_at_def citation_at_def placeholder_at_def
  time_at_def is_digit_def span_open_def span_close_def strong_open_def strong_close_def
  em_open_def em_close_def js_def Let_def

lemma parse_65: "parseTimeToSeconds [48, 58, 48, 49, 58, 48, 53] = Num 65"
  by (simp add: time_eval)

lemma dec_value_two:
  assumes "length s \<le> 2" "list_all is_digit s"
  shows "dec_value s \<le> 99"
proof -
  consider "s = []" | a where "s = [a]" | a b where "s = [a, b]"
    using assms(1) by (cases s; cases "tl s"; cases "tl (tl s)") auto
  then show ?thesis
    using assms(2) by cases (auto simp: dec_value_def is_digit_def)
qed

text \<open>The label of a button is a time that \<open>time_at\<close> has read, and the seconds that
  the button passes to \<open>jumpToTime\<close> are those of the label.\<close>

lemma citation_seconds:
  assumes "time_at s = Some (h, m, sec, r)"
  shows "parseTimeToSeconds (h @ [58] @ m @ [58] @ sec)
       = Num (dec_value h * 3600 + dec_value m * 60 + dec_value sec)"
proof -
  from time_at_Some [OF assms] have
    h: "length h = 1 \<or> length h = 2" "list_all is_digit h"
    and m: "length m = 2" "list_all is_digit m"
    and t: "length sec = 2" "list_all is_digit sec"
    by simp_all
  have ne: "h \<noteq> []" "m \<noteq> []" "sec \<noteq> []" using h(1) m(1) t(1) by auto
  have "dec_value h \<le> 99" "dec_value m \<le> 99" "dec_value sec \<le> 99"
    using h m t by (auto intro: dec_value_two)
  then have "dec_value h * 3600 + dec_value m * 60 + dec_value sec \<le> 362439" by linarith
  then have b: "dec_value h * 3600 + dec_value m * 60 + dec_value sec \<le> MAX_SAFE_INTEGER"
    by (simp add: MAX_SAFE_INTEGER_def)
  from parse_hms [OF h(2) ne(1) m(2) ne(2) t(2) ne(3) b] show ?thesis by simp
qed

text \<open>
  Claim C3. \<open>formatText\<close> should turn the substrings \<open>(H:MM:SS)\<close> of an answer, and
  nothing else, into buttons that seek to \<open>H*3600 + MM*60 + SS\<close> seconds. It does so
  for a citation, as in the first answer below: \<open>(0:01:05)\<close> becomes a button for 65
  seconds and the bold text stays markup. But it marks a citation with a placeholder
  span and then splits the text at every placeholder span, and it does not tell its own
  placeholders from one that the answer already contains. The second answer holds no
  parenthesis, so no substring of it matches \<open>(H:MM:SS)\<close>, and still it is rendered as a
  button.
\<close>

theorem formatText_placeholder_injection:
  "formatText (js ''See **this** (0:01:05) now'')
     = Elements [Span (js ''See '' @ strong_open @ js ''this'' @ strong_close @ js '' ''),
                 Button (js ''0:01:05'') (Num 65), Span (js '' now'')]
   \<and> formatText (js ''<span class='' @ [34] @ js ''timestamp-placeholder'' @ [34]
                   @ js ''>0:01:05</span>'')
     = Elements [Button (js ''0:01:05'') (Num 65)]
   \<and> 40 \<notin> set (js ''<span class='' @ [34] @ js ''timestamp-placeholder'' @ [34]
                   @ js ''>0:01:05</span>'')"
  by (simp add: format_eval parse_65)

end
